theory Spec2Isabelle
  imports Main
begin

section \<open>Data model (ts\_lib.h)\<close>

text \<open>
  A \<^verbatim>\<open>Node\<close> is a C++ \<^verbatim>\<open>int\<close>. The program never does arithmetic on nodes
  other than negating a variable encoding to get its index, so nodes are modelled as
  \<^typ>\<open>int\<close>. (Negating the least \<^verbatim>\<open>int\<close> overflows; the index it yields is out of
  the range of any vector, in the program as in the model.) A \<^verbatim>\<open>Triplet\<close> is a
  \<^verbatim>\<open>std::array<Node, 3>\<close>: a triple.
  The loops \<^verbatim>\<open>for (j = 0; j < 3; j++)\<close> that treat every position independently
  are written position-wise with \<open>map3\<close> and \<open>zip3\<close>.
\<close>

type_synonym Node = int
type_synonym Triplet = "Node \<times> Node \<times> Node"

fun map3 :: "(Node \<Rightarrow> 'b) \<Rightarrow> Triplet \<Rightarrow> 'b \<times> 'b \<times> 'b" where
  "map3 f (a, b, c) = (f a, f b, f c)"

fun zip3 :: "('a \<Rightarrow> 'b \<Rightarrow> 'c) \<Rightarrow> 'a \<times> 'a \<times> 'a \<Rightarrow> 'b \<times> 'b \<times> 'b \<Rightarrow> 'c \<times> 'c \<times> 'c" where
  "zip3 f (a, b, c) (x, y, z) = (f a x, f b y, f c z)"

fun positions :: "'a \<times> 'a \<times> 'a \<Rightarrow> 'a list" where
  "positions (a, b, c) = [a, b, c]"

text \<open>Failures of the program: a failed \<^verbatim>\<open>assert\<close> aborts, \<^verbatim>\<open>vector::at\<close> out of
  range throws \<^verbatim>\<open>std::out_of_range\<close>.\<close>

datatype error = AssertionFailed | OutOfRange

section \<open>Structure (structure.cc)\<close>

text \<open>\<^verbatim>\<open>facts_\<close> is an \<^verbatim>\<open>unordered_map<Triplet, vector<Triplet>>\<close>: a partial map
  from keys to buckets.\<close>

record Structure =
  facts :: "Triplet \<rightharpoonup> Triplet list"

definition empty_Structure :: Structure where
  "empty_Structure = \<lparr>facts = Map.empty\<rparr>"

text \<open>\<^verbatim>\<open>Lookup\<close>: \<^verbatim>\<open>facts_.at(fact)\<close>, and the empty vector when the key is absent.\<close>

definition Lookup :: "Structure \<Rightarrow> Triplet \<Rightarrow> Triplet list" where
  "Lookup s f = (case facts s f of None \<Rightarrow> [] | Some bucket \<Rightarrow> bucket)"

definition IsTrue :: "Structure \<Rightarrow> Triplet \<Rightarrow> bool" where
  "IsTrue s f = (case facts s f of None \<Rightarrow> False | Some bucket \<Rightarrow> bucket \<noteq> [])"

definition AllTrue :: "Structure \<Rightarrow> Triplet list \<Rightarrow> bool" where
  "AllTrue s fs = list_all (IsTrue s) fs"

text \<open>The key of iteration \<open>i\<close>: position \<open>j\<close> keeps the fact's node when
  \<^verbatim>\<open>(i >> j) & 0b1\<close> and is \<open>0\<close> otherwise.\<close>

definition mask_key :: "nat \<Rightarrow> Triplet \<Rightarrow> Triplet" where
  "mask_key i f = (case f of (a, b, c) \<Rightarrow>
     (if odd (i div 2 ^ 0) then a else 0,
      if odd (i div 2 ^ 1) then b else 0,
      if odd (i div 2 ^ 2) then c else 0))"

text \<open>\<^verbatim>\<open>facts_[key].push_back(fact)\<close>: \<^verbatim>\<open>operator[]\<close> creates an empty bucket for a
  new key.\<close>

definition push_back_fact :: "Triplet \<Rightarrow> Structure \<Rightarrow> Triplet \<Rightarrow> Structure" where
  "push_back_fact f s key = s\<lparr>facts := (facts s)(key \<mapsto> Lookup s key @ [f])\<rparr>"

definition AddFact :: "Structure \<Rightarrow> Triplet \<Rightarrow> error + Structure" where
  "AddFact s f =
     (if IsTrue s f then Inl AssertionFailed
      else Inr (foldl (\<lambda>s' i. push_back_fact f s' (mask_key i f)) s [0..<8]))"

text \<open>\<^verbatim>\<open>RemoveFact\<close>: in each of the eight buckets \<^verbatim>\<open>std::find\<close> must find the fact
  (asserted); \<^verbatim>\<open>erase(it)\<close> removes that first occurrence.\<close>

fun RemoveFact_loop :: "nat list \<Rightarrow> Triplet \<Rightarrow> Structure \<Rightarrow> error + Structure" where
  "RemoveFact_loop [] f s = Inr s"
| "RemoveFact_loop (i # is) f s =
     (let key = mask_key i f; bucket = Lookup s key in
      if f \<notin> set bucket then Inl AssertionFailed
      else RemoveFact_loop is f (s\<lparr>facts := (facts s)(key \<mapsto> remove1 f bucket)\<rparr>))"

definition RemoveFact :: "Structure \<Rightarrow> Triplet \<Rightarrow> error + Structure" where
  "RemoveFact s f =
     (if \<not> IsTrue s f then Inl AssertionFailed else RemoveFact_loop [0..<8] f s)"

text \<open>A sequence of calls on a FactIndex; the first failing assertion ends it.\<close>

datatype fact_op = Add Triplet | Remove Triplet

fun op_fact :: "fact_op \<Rightarrow> Triplet" where
  "op_fact (Add f) = f"
| "op_fact (Remove f) = f"

fun apply_fact_op :: "Structure \<Rightarrow> fact_op \<Rightarrow> error + Structure" where
  "apply_fact_op s (Add f) = AddFact s f"
| "apply_fact_op s (Remove f) = RemoveFact s f"

fun apply_fact_ops :: "Structure \<Rightarrow> fact_op list \<Rightarrow> error + Structure" where
  "apply_fact_ops s [] = Inr s"
| "apply_fact_ops s (x # xs) =
     (case apply_fact_op s x of Inl e \<Rightarrow> Inl e | Inr s' \<Rightarrow> apply_fact_ops s' xs)"

text \<open>A fact has three positive nodes. A fact matches a lookup pattern when it agrees
  with it at every position that is not the wildcard \<open>0\<close>.\<close>

definition is_fact :: "Triplet \<Rightarrow> bool" where
  "is_fact f = (case f of (a, b, c) \<Rightarrow> 0 < a \<and> 0 < b \<and> 0 < c)"

definition matches :: "Triplet \<Rightarrow> Triplet \<Rightarrow> bool" where
  "matches p f = (case (p, f) of ((pa, pb, pc), (a, b, c)) \<Rightarrow>
     (pa = 0 \<or> pa = a) \<and> (pb = 0 \<or> pb = b) \<and> (pc = 0 \<or> pc = c))"

section \<open>Solver (solver.cc)\<close>

text \<open>
  \<^verbatim>\<open>State\<close> holds the candidate set \<^verbatim>\<open>options\<close>, a \<^verbatim>\<open>std::set<Node>\<close>, and an
  iterator into it. The set is modelled by the list of its elements in ascending order
  (the order of iteration), the iterator by the elements from its position to the end:
  \<^verbatim>\<open>options.begin()\<close> is the whole list, \<^verbatim>\<open>options.end()\<close> is \<open>[]\<close>,
  \<^verbatim>\<open>*it\<close> is the head and \<^verbatim>\<open>it++\<close> the tail.
\<close>

record State =
  options :: "Node list"
  options_it :: "Node list"

definition new_State :: State where
  "new_State = \<lparr>options = [], options_it = []\<rparr>"

text \<open>The solver's fields. \<^verbatim>\<open>structure_\<close> is a reference to a FactIndex that
  must not change while the solver lives; the model holds its value. Vectors are lists.
  \<^verbatim>\<open>operator[]\<close> on a vector is undefined outside its range and is written \<open>!\<close>;
  the only index a caller can push out of range is the one into \<^verbatim>\<open>may_equal_\<close>, by
  passing a \<^verbatim>\<open>maybe_equal\<close> shorter than \<^verbatim>\<open>n_variables\<close>. The theorems about the
  search are therefore stated for solvers built by the constructor from a
  \<^verbatim>\<open>maybe_equal\<close> of length \<^verbatim>\<open>n_variables\<close>, and for these every index is shown to
  be in range (\<open>search_inv\<close> below).\<close>

record Solver =
  structure_ref :: Structure
  n_variables :: nat
  valid :: bool
  constraints :: "Triplet list"
  working_constraints :: "Triplet list"
  var_to_constraints :: "nat list list"
  may_equal :: "nat set list"
  assignment :: "Node list"
  states :: "State list"
  current_index :: int

definition CurrentVariable :: "Solver \<Rightarrow> int" where
  "CurrentVariable s = - current_index s"

definition IsVariable :: "int \<Rightarrow> bool" where
  "IsVariable node \<longleftrightarrow> node \<le> 0"

definition IsValid :: "Solver \<Rightarrow> bool" where
  "IsValid s = valid s"

subsection \<open>GetOptions\<close>

text \<open>Step (1): \<^verbatim>\<open>hole_is_var[j] = (emptied[j] == var)\<close> is read before position
  \<open>j\<close> is emptied.\<close>

definition hole_is_var :: "int \<Rightarrow> Triplet \<Rightarrow> bool \<times> bool \<times> bool" where
  "hole_is_var var w = map3 (\<lambda>x. x = var) w"

definition emptied :: "Triplet \<Rightarrow> Triplet" where
  "emptied w = map3 (\<lambda>x. if IsVariable x then 0 else x) w"

text \<open>Step (2), the inner loop over the positions of one matching fact, with its
  \<^verbatim>\<open>continue\<close> and \<^verbatim>\<open>break\<close>.\<close>

fun choice_loop :: "bool list \<Rightarrow> Node list \<Rightarrow> Node \<Rightarrow> Node" where
  "choice_loop (h # hs) (t # ts) choice =
     (if \<not> h then choice_loop hs ts choice
      else if choice = 0 then choice_loop hs ts t
      else if choice \<noteq> t then 0
      else choice_loop hs ts choice)"
| "choice_loop _ _ choice = choice"

definition choice_of :: "bool \<times> bool \<times> bool \<Rightarrow> Triplet \<Rightarrow> Node" where
  "choice_of hole triplet = choice_loop (positions hole) (positions triplet) 0"

text \<open>The loop over \<^verbatim>\<open>structure_.Lookup(emptied)\<close> filling \<^verbatim>\<open>local_options\<close>;
  \<^verbatim>\<open>std::set::insert\<close> is \<open>insort_insert\<close>.\<close>

definition local_options ::
  "Structure \<Rightarrow> Triplet \<Rightarrow> bool \<times> bool \<times> bool \<Rightarrow> bool \<Rightarrow> Node list \<Rightarrow> Node list" where
  "local_options st pattern hole initialized_options opts =
     foldl (\<lambda>local triplet.
              let choice = choice_of hole triplet in
              if choice > 0 \<and> (\<not> initialized_options \<or> choice \<in> set opts)
              then insort_insert choice local else local)
           [] (Lookup st pattern)"

text \<open>The loop over \<^verbatim>\<open>var_to_constraints_.at(current_index_)\<close>, which leaves as
  soon as \<^verbatim>\<open>options\<close> is empty.\<close>

fun constraint_loop ::
  "Structure \<Rightarrow> Triplet list \<Rightarrow> int \<Rightarrow> nat list \<Rightarrow> bool \<Rightarrow> Node list \<Rightarrow> Node list" where
  "constraint_loop st wc var [] initialized_options opts = opts"
| "constraint_loop st wc var (i # is) initialized_options opts =
     (let w = wc ! i;
          opts' = local_options st (emptied w) (hole_is_var var w) initialized_options opts
      in if opts' = [] then opts' else constraint_loop st wc var is True opts')"

text \<open>Step (3): \<^verbatim>\<open>for (i = 0; i < current_index_; i++)\<close> erasing the nodes of
  earlier variables that may not be equal to this one.\<close>

definition inequality_filter :: "nat set \<Rightarrow> Node list \<Rightarrow> nat \<Rightarrow> Node list \<Rightarrow> Node list" where
  "inequality_filter may_eq asg k opts =
     foldl (\<lambda>opts' i. if asg ! i \<in> set opts' \<and> i \<notin> may_eq then remove1 (asg ! i) opts' else opts')
           opts [0..<k]"

text \<open>\<^verbatim>\<open>options\<close> is a reference to \<^verbatim>\<open>states_.at(current_index_).options\<close> and is
  not cleared on entry: the first constraint overwrites it, and with no constraint it
  keeps its old contents.\<close>

definition GetOptions :: "Solver \<Rightarrow> Solver" where
  "GetOptions s =
     (let var = CurrentVariable s in
      if current_index s \<ge> int (n_variables s) \<or> current_index s < 0 then s
      else
        let k = nat (current_index s);
            opts0 = options (states s ! k);
            opts1 = constraint_loop (structure_ref s) (working_constraints s) var
                      (var_to_constraints s ! k) False opts0;
            opts2 = inequality_filter (may_equal s ! k) (assignment s) k opts1
        in s\<lparr>states := (states s)[k := \<lparr>options = opts2, options_it = opts2\<rparr>]\<rparr>)"

subsection \<open>Assign and UnAssign\<close>

definition Assign :: "Node \<Rightarrow> Solver \<Rightarrow> Solver" where
  "Assign to s =
     (let k = nat (current_index s);
          var = CurrentVariable s;
          wc = foldl (\<lambda>wc' i. wc'[i := map3 (\<lambda>x. if x = var then to else x) (wc' ! i)])
                 (working_constraints s) (var_to_constraints s ! k)
      in s\<lparr>assignment := (assignment s)[k := to],
            working_constraints := wc,
            current_index := current_index s + 1\<rparr>)"

definition UnAssign :: "Solver \<Rightarrow> Solver" where
  "UnAssign s =
     (let s1 = s\<lparr>current_index := current_index s - 1\<rparr> in
      if current_index s1 < 0 then s1
      else
        let var = CurrentVariable s1;
            wc = foldl (\<lambda>wc' i. wc'[i := zip3 (\<lambda>c w. if c = var then c else w)
                                             (constraints s1 ! i) (wc' ! i)])
                   (working_constraints s1) (var_to_constraints s1 ! nat (current_index s1))
        in s1\<lparr>working_constraints := wc\<rparr>)"

subsection \<open>The constructor\<close>

text \<open>The inner loop over the three positions of a constraint:
  \<^verbatim>\<open>var_to_constraints_.at(-constraint[i]).push_back(constraints_.size())\<close>, where
  \<^verbatim>\<open>at\<close> throws outside the range.\<close>

fun index_variables :: "Node list \<Rightarrow> nat \<Rightarrow> nat list list \<Rightarrow> error + nat list list" where
  "index_variables [] n vtc = Inr vtc"
| "index_variables (x # xs) n vtc =
     (if IsVariable x then
        (if nat (- x) < length vtc
         then index_variables xs n (vtc[nat (- x) := vtc ! nat (- x) @ [n]])
         else Inl OutOfRange)
      else index_variables xs n vtc)"

definition any_variables :: "Triplet \<Rightarrow> bool" where
  "any_variables c = list_ex IsVariable (positions c)"

fun Solver_loop :: "Triplet list \<Rightarrow> Solver \<Rightarrow> error + Solver" where
  "Solver_loop [] s = Inr s"
| "Solver_loop (c # cs) s =
     (case index_variables (positions c) (length (constraints s)) (var_to_constraints s) of
        Inl e \<Rightarrow> Inl e
      | Inr vtc \<Rightarrow>
          let s1 = s\<lparr>var_to_constraints := vtc\<rparr> in
          if any_variables c then Solver_loop cs (s1\<lparr>constraints := constraints s1 @ [c]\<rparr>)
          else if \<not> IsTrue (structure_ref s1) c then Inr (s1\<lparr>valid := False\<rparr>)
          else Solver_loop cs s1)"

definition init_Solver :: "Structure \<Rightarrow> nat \<Rightarrow> nat set list \<Rightarrow> Solver" where
  "init_Solver st n maybe_equal =
     \<lparr>structure_ref = st, n_variables = n, valid = True, constraints = [],
      working_constraints = [], var_to_constraints = replicate n [],
      may_equal = maybe_equal, assignment = replicate n 0,
      states = replicate n new_State, current_index = 0\<rparr>"

definition new_Solver ::
  "Structure \<Rightarrow> nat \<Rightarrow> Triplet list \<Rightarrow> nat set list \<Rightarrow> error + Solver" where
  "new_Solver st n cs maybe_equal =
     (if \<not> n > 0 then Inl AssertionFailed
      else case Solver_loop cs (init_Solver st n maybe_equal) of
             Inl e \<Rightarrow> Inl e
           | Inr s \<Rightarrow>
               if valid s then Inr (GetOptions (s\<lparr>working_constraints := constraints s\<rparr>))
               else Inr s)"

subsection \<open>NextAssignment\<close>

text \<open>The \<^verbatim>\<open>while (current_index_ >= 0)\<close> loop. \<^verbatim>\<open>state\<close> is a reference to
  \<^verbatim>\<open>states_[current_index_]\<close> taken before \<^verbatim>\<open>Assign\<close> moves the index, so
  \<^verbatim>\<open>state.options_it++\<close> advances the cursor of the level just assigned. The result
  is \<open>None\<close> when the loop does not return.\<close>

partial_function (option) NextAssignment_loop :: "Solver \<Rightarrow> (Node list \<times> Solver) option" where
  "NextAssignment_loop s =
     (if current_index s \<ge> 0 then
        (let k = nat (current_index s) in
         if options_it (states s ! k) = [] then NextAssignment_loop (UnAssign s)
         else
           let s1 = Assign (hd (options_it (states s ! k))) s;
               s2 = s1\<lparr>states := (states s1)[k := (states s1 ! k)
                                      \<lparr>options_it := tl (options_it (states s1 ! k))\<rparr>]\<rparr>
           in if current_index s2 = int (n_variables s2)
              then Some (assignment s2, UnAssign s2)
              else NextAssignment_loop (GetOptions s2))
      else Some ([], s\<lparr>valid := False\<rparr>))"

declare NextAssignment_loop.simps [code]

definition NextAssignment :: "Solver \<Rightarrow> (Node list \<times> Solver) option" where
  "NextAssignment s =
     (if \<not> valid s \<or> n_variables s = 0 then Some ([], s) else NextAssignment_loop s)"

text \<open>Successive calls: the results of the first \<open>n\<close> calls, in order, and the solver
  they leave.\<close>

fun NextAssignments :: "nat \<Rightarrow> Solver \<Rightarrow> (Node list list \<times> Solver) option" where
  "NextAssignments 0 s = Some ([], s)"
| "NextAssignments (Suc n) s =
     (case NextAssignment s of
        None \<Rightarrow> None
      | Some (r, s') \<Rightarrow>
          (case NextAssignments n s' of None \<Rightarrow> None | Some (rs, s'') \<Rightarrow> Some (r # rs, s'')))"

section \<open>Notions used to state the properties of the FactIndex\<close>

text \<open>The set of facts present after a sequence of calls, as the data model describes
  it: \<^verbatim>\<open>add\<close> puts a fact in, \<^verbatim>\<open>remove\<close> takes it out.\<close>

fun present_after :: "Triplet set \<Rightarrow> fact_op list \<Rightarrow> Triplet set" where
  "present_after F [] = F"
| "present_after F (Add f # xs) = present_after (insert f F) xs"
| "present_after F (Remove f # xs) = present_after (F - {f}) xs"

text \<open>The bucket discipline: the facts of \<open>F\<close> are positive, and the bucket of every key
  holds, once each, the facts of \<open>F\<close> that match the key.\<close>

definition bucket_inv :: "Triplet set \<Rightarrow> Structure \<Rightarrow> bool" where
  "bucket_inv F s \<longleftrightarrow> (\<forall>f\<in>F. is_fact f) \<and>
     (\<forall>key. distinct (Lookup s key) \<and> set (Lookup s key) = {f \<in> F. matches key f})"

text \<open>The iteration of \<^verbatim>\<open>AddFact\<close> whose key is a given pattern.\<close>

definition pattern_mask :: "Triplet \<Rightarrow> nat" where
  "pattern_mask p = (case p of (a, b, c) \<Rightarrow>
     (if a = 0 then 0 else 1) + (if b = 0 then 0 else 2) + (if c = 0 then 0 else 4))"

section \<open>Notions used to state the properties of the solver\<close>

text \<open>Substituting an assignment \<open>A\<close> into a constraint: a position holding the
  encoding \<open>- k\<close> of variable \<open>k\<close> becomes \<open>A ! k\<close>. \<open>subst_upto A k\<close> does so for the
  variables of index below \<open>k\<close> only.\<close>

definition subst_pos :: "Node list \<Rightarrow> nat \<Rightarrow> int \<Rightarrow> int" where
  "subst_pos A k x = (if IsVariable x \<and> nat (- x) < k then A ! nat (- x) else x)"

definition subst_upto :: "Node list \<Rightarrow> nat \<Rightarrow> Triplet \<Rightarrow> Triplet" where
  "subst_upto A k c = map3 (subst_pos A k) c"

definition substitute :: "Node list \<Rightarrow> Triplet \<Rightarrow> Triplet" where
  "substitute A c = map3 (\<lambda>x. if IsVariable x then A ! nat (- x) else x) c"

definition mentions :: "Triplet \<Rightarrow> nat \<Rightarrow> bool" where
  "mentions c k \<longleftrightarrow> - int k \<in> set (positions c)"

text \<open>An assignment satisfies a problem instance when it gives a positive node to each
  of the \<open>n\<close> variables, turns every constraint into a fact of the FactIndex, and gives
  different nodes to \<open>j < k\<close> unless \<open>j\<close> is in \<open>may_equal ! k\<close>.\<close>

definition all_constraints_facts :: "Structure \<Rightarrow> Triplet list \<Rightarrow> Node list \<Rightarrow> bool" where
  "all_constraints_facts st cs A \<longleftrightarrow>
     (\<forall>c\<in>set cs. is_fact (substitute A c) \<and> IsTrue st (substitute A c))"

definition inequalities_hold :: "nat set list \<Rightarrow> Node list \<Rightarrow> bool" where
  "inequalities_hold me A \<longleftrightarrow>
     (\<forall>k<length A. \<forall>j<k. j \<notin> me ! k \<longrightarrow> A ! j \<noteq> A ! k)"

definition satisfying ::
  "Structure \<Rightarrow> nat \<Rightarrow> Triplet list \<Rightarrow> nat set list \<Rightarrow> Node list \<Rightarrow> bool" where
  "satisfying st n cs me A \<longleftrightarrow>
     length A = n \<and> (\<forall>k<n. 0 < A ! k) \<and> all_constraints_facts st cs A \<and> inequalities_hold me A"

text \<open>The fields that a search never writes.\<close>

definition same_problem :: "Solver \<Rightarrow> Solver \<Rightarrow> bool" where
  "same_problem s s' \<longleftrightarrow>
     structure_ref s' = structure_ref s \<and> n_variables s' = n_variables s \<and>
     constraints s' = constraints s \<and> var_to_constraints s' = var_to_constraints s \<and>
     may_equal s' = may_equal s"

text \<open>What the constructor establishes about those fields: the sizes, the range of the
  variables, and the index from variables to the constraints that mention them.\<close>

definition problem_ok :: "Solver \<Rightarrow> bool" where
  "problem_ok s \<longleftrightarrow>
     0 < n_variables s \<and>
     length (var_to_constraints s) = n_variables s \<and>
     length (may_equal s) = n_variables s \<and>
     (\<forall>c\<in>set (constraints s). \<forall>x\<in>set (positions c). IsVariable x \<longrightarrow> nat (- x) < n_variables s) \<and>
     (\<forall>k<n_variables s. set (var_to_constraints s ! k) =
        {i. i < length (constraints s) \<and> mentions (constraints s ! i) k})"

text \<open>The candidates \<^verbatim>\<open>GetOptions\<close> computes for the variable of index \<open>length p\<close>
  when the earlier variables hold the nodes \<open>p\<close>.\<close>

definition level_options :: "Solver \<Rightarrow> Node list \<Rightarrow> Node list" where
  "level_options s p =
     (let k = length p in
      inequality_filter (may_equal s ! k) p k
        (constraint_loop (structure_ref s) (map (subst_upto p k) (constraints s)) (- int k)
           (var_to_constraints s ! k) False []))"

text \<open>The depth-first enumeration of the completions of a partial assignment \<open>p\<close> by
  \<open>d\<close> more variables.\<close>

primrec completions :: "Solver \<Rightarrow> nat \<Rightarrow> Node list \<Rightarrow> Node list list" where
  "completions s 0 p = [p]"
| "completions s (Suc d) p = concat (map (\<lambda>v. completions s d (p @ [v])) (level_options s p))"

text \<open>The assignments a search state has still to produce: for each level from the
  current one down to the root, the completions through the candidates not yet tried.\<close>

definition pending :: "Solver \<Rightarrow> nat \<Rightarrow> Node list list" where
  "pending s l =
     concat (map (\<lambda>v. completions s (n_variables s - Suc l) (take l (assignment s) @ [v]))
               (options_it (states s ! l)))"

primrec pending_below :: "Solver \<Rightarrow> nat \<Rightarrow> Node list list" where
  "pending_below s 0 = []"
| "pending_below s (Suc l) = pending s l @ pending_below s l"

definition todo :: "Solver \<Rightarrow> Node list list" where
  "todo s = pending_below s (Suc (nat (current_index s)))"

text \<open>The state of the loop after \<^verbatim>\<open>Assign(*state.options_it)\<close> and
  \<^verbatim>\<open>state.options_it++\<close>.\<close>

definition descend :: "Solver \<Rightarrow> Solver" where
  "descend s =
     (let k = nat (current_index s);
          s1 = Assign (hd (options_it (states s ! k))) s
      in s1\<lparr>states := (states s1)[k := (states s1 ! k)
                              \<lparr>options_it := tl (options_it (states s1 ! k))\<rparr>]\<rparr>)"

text \<open>The invariant of the search at the head of the loop of \<^verbatim>\<open>NextAssignment\<close>.\<close>

definition working_ok :: "Solver \<Rightarrow> bool" where
  "working_ok s \<longleftrightarrow>
     working_constraints s =
       map (subst_upto (assignment s) (nat (current_index s))) (constraints s)"

definition search_inv :: "Solver \<Rightarrow> bool" where
  "search_inv s \<longleftrightarrow>
     problem_ok s \<and>
     0 \<le> current_index s \<and> current_index s < int (n_variables s) \<and>
     length (assignment s) = n_variables s \<and> length (states s) = n_variables s \<and>
     working_ok s \<and>
     (\<forall>l\<le>nat (current_index s).
        options (states s ! l) = level_options s (take l (assignment s))) \<and>
     (\<forall>l<nat (current_index s).
        \<exists>pre. options (states s ! l) = pre @ assignment s ! l # options_it (states s ! l)) \<and>
     (\<exists>pre. options (states s ! nat (current_index s)) =
        pre @ options_it (states s ! nat (current_index s))) \<and>
     (\<forall>l<n_variables s. var_to_constraints s ! l = [] \<longrightarrow> options (states s ! l) = [])"

text \<open>The measure of the loop: the numbers of untried candidates of the levels, compared
  lexicographically from the root, then the current index.\<close>

definition search_measure :: "Solver \<Rightarrow> nat list" where
  "search_measure s =
     map (\<lambda>st. length (options_it st)) (states s) @ [nat (current_index s + 1)]"

text \<open>A \<^verbatim>\<open>may_equal\<close> list without the entries that refer to an index that is not
  below the variable's own.\<close>

definition clip_may_equal :: "nat set list \<Rightarrow> nat set list" where
  "clip_may_equal me = map (\<lambda>k. {j \<in> me ! k. j < k}) [0..<length me]"

text \<open>The invariant of the working constraints, position by position: a position whose
  original holds a variable of index below \<^verbatim>\<open>current_index_\<close> holds the node assigned
  to that variable, and a position whose original holds a variable of index at least
  \<^verbatim>\<open>current_index_\<close> holds the encoding of that variable.\<close>

definition working_invariant :: "Solver \<Rightarrow> bool" where
  "working_invariant s \<longleftrightarrow>
     length (working_constraints s) = length (constraints s) \<and>
     (\<forall>i<length (constraints s). \<forall>j<3.
        (IsVariable (positions (constraints s ! i) ! j) \<and>
           - (positions (constraints s ! i) ! j) < current_index s \<longrightarrow>
           positions (working_constraints s ! i) ! j =
             assignment s ! nat (- (positions (constraints s ! i) ! j))) \<and>
        (IsVariable (positions (constraints s ! i) ! j) \<and>
           current_index s \<le> - (positions (constraints s ! i) ! j) \<longrightarrow>
           positions (working_constraints s ! i) ! j = positions (constraints s ! i) ! j))"

text \<open>The points of the search: the states at the head of the loop of
  \<^verbatim>\<open>NextAssignment\<close> (where a call starts and where it returns), after
  \<^verbatim>\<open>Assign\<close>, after the increment of the cursor, and after the loop has been left
  for good. Each rule is one statement of the loop under the tests that guard it.\<close>

datatype control = Head | Assigned | Advanced | Exhausted

inductive search_point :: "Solver \<Rightarrow> control \<Rightarrow> Solver \<Rightarrow> bool" for s0 :: Solver where
  start: "search_point s0 Head s0"
| backtrack:
    "search_point s0 Head s \<Longrightarrow> 0 \<le> current_index s \<Longrightarrow>
     options_it (states s ! nat (current_index s)) = [] \<Longrightarrow>
     search_point s0 Head (UnAssign s)"
| assign:
    "search_point s0 Head s \<Longrightarrow> 0 \<le> current_index s \<Longrightarrow>
     options_it (states s ! nat (current_index s)) \<noteq> [] \<Longrightarrow>
     search_point s0 Assigned (Assign (hd (options_it (states s ! nat (current_index s)))) s)"
| advance:
    "search_point s0 Head s \<Longrightarrow> 0 \<le> current_index s \<Longrightarrow>
     options_it (states s ! nat (current_index s)) \<noteq> [] \<Longrightarrow>
     search_point s0 Advanced (descend s)"
| found:
    "search_point s0 Advanced s \<Longrightarrow> current_index s = int (n_variables s) \<Longrightarrow>
     search_point s0 Head (UnAssign s)"
| next_level:
    "search_point s0 Advanced s \<Longrightarrow> current_index s \<noteq> int (n_variables s) \<Longrightarrow>
     search_point s0 Head (GetOptions s)"
| exhausted:
    "search_point s0 Head s \<Longrightarrow> current_index s < 0 \<Longrightarrow>
     search_point s0 Exhausted (s\<lparr>valid := False\<rparr>)"

section \<open>Problem instances used as examples\<close>

text \<open>Scenario S1 of the specification: one fact, one variable at all three positions.\<close>

definition s1_facts :: Structure where
  "s1_facts = projr (apply_fact_ops empty_Structure [Add (1, 1, 1)])"

definition s1_solver :: Solver where
  "s1_solver = projr (new_Solver s1_facts 1 [(0, 0, 0)] [{}])"

text \<open>Scenario S3: a ground constraint that is not a fact.\<close>

definition s3_solver :: Solver where
  "s3_solver = projr (new_Solver s1_facts 1 [(2, 2, 2), (0, 0, 0)] [{}])"

text \<open>One fact and a constraint over two variables, which must differ.\<close>

definition pair_facts :: Structure where
  "pair_facts = projr (apply_fact_ops empty_Structure [Add (1, 1, 2)])"

definition pair_solver :: Solver where
  "pair_solver = projr (new_Solver pair_facts 2 [(0, 0, - 1)] [{}, {}])"

text \<open>Two variables, the second of which no constraint mentions.\<close>

definition free_variable_solver :: Solver where
  "free_variable_solver = projr (new_Solver s1_facts 2 [(0, 0, 0)] [{}, {}])"

text \<open>Scenario S1 with a \<^verbatim>\<open>may_equal\<close> entry that refers to the variable itself.\<close>

definition self_equal_solver :: Solver where
  "self_equal_solver = projr (new_Solver s1_facts 1 [(0, 0, 0)] [{0}])"

section \<open>The FactIndex: bucket discipline\<close>

lemma upt8: "[0..<8] = [0,1,2,3,4,5,6,7::nat]" by (simp add: upt_rec)

lemma mask_key_7: "mask_key 7 f = f" by (cases f) (simp add: mask_key_def)

lemma less8: "i < 8 \<longleftrightarrow> i \<in> set [0,1,2,3,4,5,6,7::nat]"
  by auto

lemma bits3_inj: "i < 8 \<Longrightarrow> j < 8 \<Longrightarrow> odd i = odd j \<Longrightarrow> odd (i div 2) = odd (j div 2) \<Longrightarrow> odd (i div 4) = odd (j div 4) \<Longrightarrow> i = (j::nat)"
  unfolding less8 by auto

lemma mask_key_inj: "is_fact f \<Longrightarrow> i < 8 \<Longrightarrow> j < 8 \<Longrightarrow> mask_key i f = mask_key j f \<Longrightarrow> i = j"
proof -
  assume a: "is_fact f" "i < 8" "j < 8" "mask_key i f = mask_key j f"
  obtain a b c where f: "f = (a, b, c)" by (cases f)
  from a(1,4) have "odd i = odd j" "odd (i div 2) = odd (j div 2)" "odd (i div 4) = odd (j div 4)"
    by (simp_all add: f mask_key_def is_fact_def split: if_splits)
  then show ?thesis using a(2,3) by (rule bits3_inj [rotated 2])
qed

lemma matches_mask_key: "matches (mask_key i f) f"
  by (cases f) (simp add: mask_key_def matches_def)

lemma pattern_mask_less: "pattern_mask p < 8"
  by (cases p) (simp add: pattern_mask_def)

lemma mask_key_pattern_mask: "matches p f \<Longrightarrow> mask_key (pattern_mask p) f = p"
  by (cases p; cases f) (auto simp add: pattern_mask_def mask_key_def matches_def)

lemma mask_key_matches: "(\<exists>i<8. mask_key i f = p) \<longleftrightarrow> matches p f"
  using matches_mask_key mask_key_pattern_mask pattern_mask_less by blast

lemma matches_fact: "is_fact f \<Longrightarrow> matches f g \<longleftrightarrow> f = g"
  by (cases f; cases g) (auto simp: is_fact_def matches_def)

lemma IsTrue_Lookup: "IsTrue s f \<longleftrightarrow> Lookup s f \<noteq> []"
  by (simp add: IsTrue_def Lookup_def split: option.splits)

lemma Lookup_push_back:
  "Lookup (push_back_fact f s k) key = Lookup s key @ (if k = key then [f] else [])"
  by (simp add: push_back_fact_def Lookup_def)

lemma Lookup_AddFact_loop:
  "distinct is \<Longrightarrow> \<forall>i\<in>set is. i < 8 \<Longrightarrow> is_fact f \<Longrightarrow>
   Lookup (foldl (\<lambda>s' i. push_back_fact f s' (mask_key i f)) s is) key =
   Lookup s key @ (if \<exists>i\<in>set is. mask_key i f = key then [f] else [])"
proof (induction "is" arbitrary: s)
  case Nil
  then show ?case by simp
next
  case (Cons i "is")
  have "\<not> (mask_key i f = key \<and> (\<exists>j\<in>set is. mask_key j f = key))"
  proof
    assume "mask_key i f = key \<and> (\<exists>j\<in>set is. mask_key j f = key)"
    then obtain j where "j \<in> set is" "mask_key i f = mask_key j f" by auto
    moreover have "i < 8" "j < 8" "i \<noteq> j" using Cons.prems calculation by auto
    ultimately show False using mask_key_inj [OF Cons.prems(3)] by blast
  qed
  then show ?case using Cons by (auto simp: Lookup_push_back)
qed

lemma bucket_inv_set: "bucket_inv F s \<Longrightarrow> set (Lookup s key) = {f \<in> F. matches key f}"
  unfolding bucket_inv_def by blast

lemma bucket_inv_distinct: "bucket_inv F s \<Longrightarrow> distinct (Lookup s key)"
  unfolding bucket_inv_def by blast

lemma bucket_inv_fact: "bucket_inv F s \<Longrightarrow> f \<in> F \<Longrightarrow> is_fact f"
  unfolding bucket_inv_def by blast

lemma bucket_invI: "(\<And>f. f \<in> F \<Longrightarrow> is_fact f) \<Longrightarrow> (\<And>key. distinct (Lookup s key)) \<Longrightarrow>
  (\<And>key. set (Lookup s key) = {f \<in> F. matches key f}) \<Longrightarrow> bucket_inv F s"
  unfolding bucket_inv_def by blast

lemma bucket_inv_IsTrue: "bucket_inv F s \<Longrightarrow> is_fact f \<Longrightarrow> IsTrue s f \<longleftrightarrow> f \<in> F"
proof -
  assume a: "bucket_inv F s" "is_fact f"
  then have "set (Lookup s f) = {g \<in> F. f = g}"
    by (simp add: bucket_inv_set matches_fact)
  then have "set (Lookup s f) \<noteq> {} \<longleftrightarrow> f \<in> F" by auto
  then show ?thesis unfolding IsTrue_Lookup by simp
qed

lemma bucket_inv_empty: "bucket_inv {} empty_Structure"
  by (simp add: bucket_inv_def empty_Structure_def Lookup_def)

lemma bucket_inv_AddFact:
  assumes "bucket_inv F s" "is_fact f" "AddFact s f = Inr s'"
  shows "bucket_inv (insert f F) s'"
proof -
  from assms have nf: "f \<notin> F" and s': "s' = foldl (\<lambda>s' i. push_back_fact f s' (mask_key i f)) s [0..<8]"
    using bucket_inv_IsTrue [OF assms(1,2)] by (auto simp: AddFact_def split: if_splits)
  have L: "Lookup s' key = Lookup s key @ (if matches key f then [f] else [])" for key
    unfolding s' using Lookup_AddFact_loop [of "[0..<8]" f s key] assms(2) mask_key_matches [of f key]
    by auto
  show ?thesis
  proof (rule bucket_invI)
    fix g assume "g \<in> insert f F" then show "is_fact g"
      using assms(2) bucket_inv_fact [OF assms(1)] by blast
  next
    fix key show "distinct (Lookup s' key)"
      using bucket_inv_distinct [OF assms(1), of key] bucket_inv_set [OF assms(1), of key] nf
      by (simp add: L)
  next
    fix key show "set (Lookup s' key) = {g \<in> insert f F. matches key g}"
      using bucket_inv_set [OF assms(1), of key] by (auto simp: L)
  qed
qed

lemma RemoveFact_loop_ok:
  "distinct is \<Longrightarrow> \<forall>i\<in>set is. i < 8 \<Longrightarrow> is_fact f \<Longrightarrow>
   \<forall>i\<in>set is. f \<in> set (Lookup s (mask_key i f)) \<Longrightarrow>
   \<exists>s'. RemoveFact_loop is f s = Inr s'"
proof (induction "is" arbitrary: s)
  case Nil
  then show ?case by simp
next
  case (Cons i "is")
  let ?k = "mask_key i f"
  let ?s = "s\<lparr>facts := (facts s)(?k \<mapsto> remove1 f (Lookup s ?k))\<rparr>"
  have L: "Lookup ?s key = (if ?k = key then remove1 f (Lookup s key) else Lookup s key)" for key
    by (simp add: Lookup_def)
  have ne: "\<forall>j\<in>set is. mask_key j f \<noteq> ?k"
  proof
    fix j assume j: "j \<in> set is"
    then have "i < 8" "j < 8" "i \<noteq> j" using Cons.prems by auto
    then show "mask_key j f \<noteq> ?k" using mask_key_inj [OF Cons.prems(3), of i j] by auto
  qed
  have "\<forall>j\<in>set is. f \<in> set (Lookup ?s (mask_key j f))"
    using Cons.prems(4) ne by (auto simp: L)
  with Cons.IH [of ?s] Cons.prems obtain s' where
    s': "RemoveFact_loop is f ?s = Inr s'"
    by auto
  have "RemoveFact_loop (i # is) f s = Inr s'"
    using s' Cons.prems(4) by (simp add: Let_def)
  then show ?case by blast
qed

lemma Lookup_RemoveFact_loop:
  "RemoveFact_loop is f s = Inr s' \<Longrightarrow> distinct is \<Longrightarrow> \<forall>i\<in>set is. i < 8 \<Longrightarrow> is_fact f \<Longrightarrow>
   Lookup s' key =
     (if \<exists>i\<in>set is. mask_key i f = key then remove1 f (Lookup s key) else Lookup s key)"
proof (induction "is" arbitrary: s)
  case Nil
  then show ?case by simp
next
  case (Cons i "is")
  let ?k = "mask_key i f"
  let ?s = "s\<lparr>facts := (facts s)(?k \<mapsto> remove1 f (Lookup s ?k))\<rparr>"
  have L: "Lookup ?s key = (if ?k = key then remove1 f (Lookup s key) else Lookup s key)"
    by (simp add: Lookup_def)
  have ne: "\<not> (?k = key \<and> (\<exists>j\<in>set is. mask_key j f = key))"
  proof
    assume "mask_key i f = key \<and> (\<exists>j\<in>set is. mask_key j f = key)"
    then obtain j where "j \<in> set is" "mask_key i f = mask_key j f" by auto
    moreover have "i < 8" "j < 8" "i \<noteq> j" using Cons.prems calculation by auto
    ultimately show False using mask_key_inj [OF Cons.prems(4)] by blast
  qed
  from Cons.prems(1) have r: "RemoveFact_loop is f ?s = Inr s'"
    by (simp add: Let_def split: if_splits)
  have "Lookup s' key =
     (if \<exists>i\<in>set is. mask_key i f = key then remove1 f (Lookup ?s key) else Lookup ?s key)"
    using Cons.IH [OF r] Cons.prems by simp
  then show ?case using ne unfolding L by auto
qed

lemma bucket_inv_RemoveFact:
  assumes "bucket_inv F s" "is_fact f" "RemoveFact s f = Inr s'"
  shows "bucket_inv (F - {f}) s'"
proof -
  from assms have fF: "f \<in> F" and s': "RemoveFact_loop [0..<8] f s = Inr s'"
    using bucket_inv_IsTrue [OF assms(1,2)] by (auto simp: RemoveFact_def split: if_splits)
  have "\<forall>i\<in>set [0..<8]. f \<in> set (Lookup s (mask_key i f))"
    using fF by (simp add: bucket_inv_set [OF assms(1)] matches_mask_key)
  have L: "Lookup s' key = (if matches key f then remove1 f (Lookup s key) else Lookup s key)" for key
    using Lookup_RemoveFact_loop [OF s', of key] assms(2) mask_key_matches [of f key] by auto
  show ?thesis
  proof (rule bucket_invI)
    fix g assume "g \<in> F - {f}" then show "is_fact g"
      using bucket_inv_fact [OF assms(1)] by blast
  next
    fix key show "distinct (Lookup s' key)"
      using bucket_inv_distinct [OF assms(1), of key] by (simp add: L)
  next
    fix key show "set (Lookup s' key) = {g \<in> F - {f}. matches key g}"
      using bucket_inv_set [OF assms(1), of key] bucket_inv_distinct [OF assms(1), of key] fF
      by (auto simp: L)
  qed
qed

lemma bucket_inv_ops:
  "bucket_inv F s \<Longrightarrow> \<forall>x\<in>set ops. is_fact (op_fact x) \<Longrightarrow> apply_fact_ops s ops = Inr s' \<Longrightarrow>
   bucket_inv (present_after F ops) s'"
proof (induction ops arbitrary: F s)
  case Nil
  then show ?case by auto
next
  case (Cons x ops)
  then obtain s1 where s1: "apply_fact_op s x = Inr s1" "apply_fact_ops s1 ops = Inr s'"
    by (auto split: sum.splits)
  show ?case
  proof (cases x)
    case (Add f)
    then have "bucket_inv (insert f F) s1"
      using bucket_inv_AddFact [of F s f s1] Cons.prems s1 by auto
    then show ?thesis using Cons.IH [OF _ _ s1(2)] Cons.prems(2) Add by simp
  next
    case (Remove f)
    then have "bucket_inv (F - {f}) s1"
      using bucket_inv_RemoveFact [of F s f s1] Cons.prems s1 by auto
    then show ?thesis using Cons.IH [OF _ _ s1(2)] Cons.prems(2) Remove by simp
  qed
qed

lemma set_Lookup_AddFact_loop:
  "set (Lookup (foldl (\<lambda>s' i. push_back_fact f s' (mask_key i f)) s is) key) =
   set (Lookup s key) \<union> (if \<exists>i\<in>set is. mask_key i f = key then {f} else {})"
  by (induction "is" arbitrary: s) (auto simp: Lookup_push_back)

text \<open>
  Claim C3. After any sequence of \<^verbatim>\<open>AddFact\<close> and \<^verbatim>\<open>RemoveFact\<close> calls on an
  empty FactIndex in which every fact is positive and no assertion fails (no duplicate
  add, no absent remove), \<^verbatim>\<open>Lookup(p)\<close> returns, without repetition, exactly the
  facts present that agree with \<open>p\<close> at every position of \<open>p\<close> that is not \<open>0\<close>. The
  facts present are those \<^verbatim>\<open>IsTrue\<close> accepts, which are those added and not removed
  since. This holds for every key \<open>p\<close>, so in particular for every pattern of nodes
  and wildcards.
\<close>

theorem Lookup_correct:
  assumes "apply_fact_ops empty_Structure ops = Inr s"
    and "\<forall>x\<in>set ops. is_fact (op_fact x)"
  shows "set (Lookup s p) = {f. is_fact f \<and> IsTrue s f \<and> matches p f}
    \<and> distinct (Lookup s p)
    \<and> {f. is_fact f \<and> IsTrue s f} = present_after {} ops"
proof -
  let ?F = "present_after {} ops"
  have inv: "bucket_inv ?F s"
    using bucket_inv_ops [OF bucket_inv_empty assms(2) assms(1)] .
  have F: "{f. is_fact f \<and> IsTrue s f} = ?F"
    using bucket_inv_IsTrue [OF inv] bucket_inv_fact [OF inv] by blast
  have "set (Lookup s p) = {f \<in> ?F. matches p f}"
    by (rule bucket_inv_set [OF inv])
  then have "set (Lookup s p) = {f. is_fact f \<and> IsTrue s f \<and> matches p f}"
    using F by blast
  then show ?thesis using F bucket_inv_distinct [OF inv] by blast
qed

theorem Lookup_correct_witness:
  "\<exists>s. apply_fact_ops empty_Structure [Add (1, 2, 3), Add (1, 2, 4), Add (5, 2, 3), Remove (1, 2, 4)] = Inr s
     \<and> set (Lookup s (0, 2, 3)) = {(1, 2, 3), (5, 2, 3)}
     \<and> set (Lookup s (0, 2, 3)) = {f. is_fact f \<and> IsTrue s f \<and> matches (0, 2, 3) f}"
proof -
  let ?ops = "[Add (1, 2, 3), Add (1, 2, 4), Add (5, 2, 3), Remove (1, 2, 4)]"
  obtain s where s: "apply_fact_ops empty_Structure ?ops = Inr s"
    by (simp add: AddFact_def RemoveFact_def IsTrue_def Lookup_def push_back_fact_def
        mask_key_def empty_Structure_def upt8)
  have pos: "\<forall>x\<in>set ?ops. is_fact (op_fact x)"
    by (simp add: is_fact_def)
  have "set (Lookup s (0, 2, 3)) = {(1, 2, 3), (5, 2, 3)}"
    using s by (auto simp add: AddFact_def RemoveFact_def IsTrue_def Lookup_def push_back_fact_def
        mask_key_def empty_Structure_def upt8)
  then show ?thesis using s Lookup_correct [OF s pos, of "(0, 2, 3)"] by blast
qed

text \<open>\<^verbatim>\<open>IsTrue\<close> on an arbitrary key: the key's bucket is not empty exactly when some
  present fact matches the key. On a fact this is presence (\<open>bucket_inv_IsTrue\<close>); on a key
  with a wildcard it holds as soon as a present fact agrees with the key elsewhere.\<close>

lemma bucket_inv_IsTrue_key: "bucket_inv F s \<Longrightarrow> IsTrue s p \<longleftrightarrow> (\<exists>g\<in>F. matches p g)"
proof -
  assume a: "bucket_inv F s"
  have "set (Lookup s p) \<noteq> {} \<longleftrightarrow> (\<exists>g\<in>F. matches p g)"
    unfolding bucket_inv_set [OF a, of p] by blast
  then show ?thesis unfolding IsTrue_Lookup by simp
qed

section \<open>The solver: Assign, UnAssign and the working constraints\<close>

subsection \<open>Updating a vector along a list of indices\<close>

lemma length_foldl_update:
  "length (foldl (\<lambda>w i. w[i := g i (w ! i)]) wc is) = length wc"
  by (induction "is" arbitrary: wc) auto

lemma nth_foldl_update:
  assumes "\<And>i x. g i (g i x) = g i x" and "j < length wc"
  shows "foldl (\<lambda>w i. w[i := g i (w ! i)]) wc is ! j = (if j \<in> set is then g j (wc ! j) else wc ! j)"
  using assms(2)
proof (induction "is" arbitrary: wc)
  case Nil
  then show ?case by simp
next
  case (Cons i "is")
  let ?wc = "wc[i := g i (wc ! i)]"
  have "foldl (\<lambda>w i. w[i := g i (w ! i)]) ?wc is ! j = (if j \<in> set is then g j (?wc ! j) else ?wc ! j)"
    using Cons by simp
  then show ?case using Cons.prems assms(1) by (cases "j = i") auto
qed

subsection \<open>Substitution, position by position\<close>

lemma IsVariable_neg [simp]: "IsVariable (- int k)"
  by (simp add: IsVariable_def)

lemma var_index: "IsVariable x \<Longrightarrow> nat (- x) = k \<longleftrightarrow> x = - int k"
  by (auto simp: IsVariable_def)

lemma subst_pos_Assign:
  assumes "\<forall>l<k. 0 < A ! l" and "k < length A"
  shows "(if subst_pos A k x = - int k then v else subst_pos A k x) = subst_pos (A[k := v]) (Suc k) x"
proof (cases "IsVariable x \<and> nat (- x) < k")
  case True
  then have "0 < A ! nat (- x)" using assms(1) by blast
  then show ?thesis using True by (simp add: subst_pos_def)
next
  case False
  show ?thesis
  proof (cases "x = - int k")
    case True
    then show ?thesis using assms(2) by (simp add: subst_pos_def)
  next
    case False
    with \<open>\<not> (IsVariable x \<and> nat (- x) < k)\<close> have "\<not> (IsVariable x \<and> nat (- x) < Suc k)"
      using var_index [of x k] by (auto simp: less_Suc_eq)
    then show ?thesis using False \<open>\<not> (IsVariable x \<and> nat (- x) < k)\<close>
      by (auto simp: subst_pos_def)
  qed
qed

lemma subst_upto_Assign:
  assumes "\<forall>l<k. 0 < A ! l" and "k < length A"
  shows "map3 (\<lambda>x. if x = - int k then v else x) (subst_upto A k c) = subst_upto (A[k := v]) (Suc k) c"
  by (cases c) (simp add: subst_upto_def subst_pos_Assign [OF assms])

lemma subst_pos_Suc:
  "x \<noteq> - int k \<Longrightarrow> subst_pos B (Suc k) x = subst_pos B k x"
  using var_index [of x k] by (auto simp: subst_pos_def less_Suc_eq)

lemma subst_pos_update:
  "subst_pos (A[k := v]) k x = subst_pos A k x"
  by (simp add: subst_pos_def)

lemma subst_pos_var: "subst_pos A k (- int k) = - int k"
  by (simp add: subst_pos_def)

lemma subst_upto_not_mentioned:
  "\<not> mentions c k \<Longrightarrow> subst_upto B (Suc k) c = subst_upto B k c"
  by (cases c) (simp add: subst_upto_def mentions_def subst_pos_Suc)

lemma subst_upto_update:
  "subst_upto (A[k := v]) k c = subst_upto A k c"
  by (cases c) (simp add: subst_upto_def subst_pos_update)

lemma subst_upto_UnAssign:
  "zip3 (\<lambda>c w. if c = - int k then c else w) c (subst_upto A (Suc k) c) = subst_upto A k c"
  by (cases c) (simp add: subst_upto_def subst_pos_Suc subst_pos_var)

subsection \<open>The fields written by Assign, UnAssign and GetOptions\<close>

lemma Assign_fields [simp]:
  "structure_ref (Assign v s) = structure_ref s"
  "n_variables (Assign v s) = n_variables s"
  "valid (Assign v s) = valid s"
  "constraints (Assign v s) = constraints s"
  "var_to_constraints (Assign v s) = var_to_constraints s"
  "may_equal (Assign v s) = may_equal s"
  "states (Assign v s) = states s"
  "current_index (Assign v s) = current_index s + 1"
  "assignment (Assign v s) = (assignment s)[nat (current_index s) := v]"
  by (simp_all add: Assign_def Let_def)

lemma UnAssign_fields [simp]:
  "structure_ref (UnAssign s) = structure_ref s"
  "n_variables (UnAssign s) = n_variables s"
  "valid (UnAssign s) = valid s"
  "constraints (UnAssign s) = constraints s"
  "var_to_constraints (UnAssign s) = var_to_constraints s"
  "may_equal (UnAssign s) = may_equal s"
  "states (UnAssign s) = states s"
  "current_index (UnAssign s) = current_index s - 1"
  "assignment (UnAssign s) = assignment s"
  by (simp_all add: UnAssign_def Let_def)

lemma GetOptions_fields [simp]:
  "structure_ref (GetOptions s) = structure_ref s"
  "n_variables (GetOptions s) = n_variables s"
  "valid (GetOptions s) = valid s"
  "constraints (GetOptions s) = constraints s"
  "working_constraints (GetOptions s) = working_constraints s"
  "var_to_constraints (GetOptions s) = var_to_constraints s"
  "may_equal (GetOptions s) = may_equal s"
  "current_index (GetOptions s) = current_index s"
  "assignment (GetOptions s) = assignment s"
  by (simp_all add: GetOptions_def Let_def)

lemma length_states_GetOptions [simp]: "length (states (GetOptions s)) = length (states s)"
  by (simp add: GetOptions_def Let_def)

subsection \<open>Assign and UnAssign keep the working constraints in step\<close>

lemma problem_ok_vtc:
  "problem_ok s \<Longrightarrow> k < n_variables s \<Longrightarrow> i < length (constraints s) \<Longrightarrow>
   i \<in> set (var_to_constraints s ! k) \<longleftrightarrow> mentions (constraints s ! i) k"
  unfolding problem_ok_def by blast

lemma working_ok_Assign:
  assumes "problem_ok s" and "0 \<le> current_index s" and "current_index s < int (n_variables s)"
    and "length (assignment s) = n_variables s" and "working_ok s"
    and "\<forall>l<nat (current_index s). 0 < assignment s ! l"
  shows "working_ok (Assign v s)"
proof -
  define k where "k = nat (current_index s)"
  define A where "A = assignment s"
  define f where "f = map3 (\<lambda>x. if x = - int k then v else x)"
  have k: "k < n_variables s" "current_index s = int k" using assms(2,3) by (auto simp: k_def)
  have w: "working_constraints s = map (subst_upto A k) (constraints s)"
    using assms(5) by (simp add: working_ok_def k_def A_def)
  have W: "working_constraints (Assign v s) =
      foldl (\<lambda>w i. w[i := f (w ! i)]) (working_constraints s) (var_to_constraints s ! k)"
    by (simp add: Assign_def Let_def CurrentVariable_def k(2) f_def)
  have idem: "f (f x) = f x" for x by (cases x) (simp add: f_def)
  have len: "length (working_constraints (Assign v s)) = length (constraints s)"
    unfolding W using length_foldl_update [of "\<lambda>_. f" "working_constraints s"] by (simp add: w)
  have pos: "\<forall>l<k. 0 < A ! l" "k < length A" using assms(4,6) k(1) by (simp_all add: k_def A_def)
  have "working_constraints (Assign v s) = map (subst_upto (A[k := v]) (Suc k)) (constraints s)"
  proof (rule nth_equalityI)
    show "length (working_constraints (Assign v s)) =
        length (map (subst_upto (A[k := v]) (Suc k)) (constraints s))"
      by (simp add: len)
  next
    fix i assume "i < length (working_constraints (Assign v s))"
    then have i: "i < length (constraints s)" by (simp add: len)
    then have iw: "i < length (working_constraints s)" by (simp add: w)
    have wi: "working_constraints s ! i = subst_upto A k (constraints s ! i)"
      using i by (simp add: w)
    have "working_constraints (Assign v s) ! i =
        (if i \<in> set (var_to_constraints s ! k) then f (working_constraints s ! i)
         else working_constraints s ! i)"
      unfolding W using nth_foldl_update [of "\<lambda>_. f" i "working_constraints s", OF idem iw] .
    also have "\<dots> = subst_upto (A[k := v]) (Suc k) (constraints s ! i)"
    proof (cases "mentions (constraints s ! i) k")
      case True
      then show ?thesis
        using problem_ok_vtc [OF assms(1) k(1) i] subst_upto_Assign [OF pos]
        by (simp add: wi f_def)
    next
      case False
      then show ?thesis
        using problem_ok_vtc [OF assms(1) k(1) i]
        by (simp add: wi subst_upto_not_mentioned subst_upto_update)
    qed
    finally show "working_constraints (Assign v s) ! i =
        map (subst_upto (A[k := v]) (Suc k)) (constraints s) ! i"
      using i by simp
  qed
  moreover have "nat (int k + 1) = Suc k" by simp
  ultimately show ?thesis by (simp add: working_ok_def k(2) A_def)
qed

lemma working_ok_UnAssign:
  assumes "problem_ok s" and "0 \<le> current_index s" and "current_index s \<le> int (n_variables s)"
    and "working_ok s"
  shows "working_ok (UnAssign s)"
proof (cases "current_index s = 0")
  case True
  then show ?thesis using assms(4) by (simp add: working_ok_def UnAssign_def Let_def)
next
  case False
  define k where "k = nat (current_index s - 1)"
  define A where "A = assignment s"
  define g where "g = (\<lambda>i. zip3 (\<lambda>c w. if c = - int k then c else w) (constraints s ! i))"
  have k: "k < n_variables s" "current_index s = int k + 1"
    using assms(2,3) False by (auto simp: k_def)
  have w: "working_constraints s = map (subst_upto A (Suc k)) (constraints s)"
    using assms(4) by (simp add: working_ok_def k(2) A_def nat_add_distrib)
  have W: "working_constraints (UnAssign s) =
      foldl (\<lambda>w i. w[i := g i (w ! i)]) (working_constraints s) (var_to_constraints s ! k)"
    by (simp add: UnAssign_def Let_def CurrentVariable_def k(2) g_def)
  have idem: "g i (g i x) = g i x" for i x
    by (cases x; cases "constraints s ! i") (simp add: g_def)
  have len: "length (working_constraints (UnAssign s)) = length (constraints s)"
    unfolding W using length_foldl_update [of g "working_constraints s"] by (simp add: w)
  have "working_constraints (UnAssign s) = map (subst_upto A k) (constraints s)"
  proof (rule nth_equalityI)
    show "length (working_constraints (UnAssign s)) = length (map (subst_upto A k) (constraints s))"
      by (simp add: len)
  next
    fix i assume "i < length (working_constraints (UnAssign s))"
    then have i: "i < length (constraints s)" by (simp add: len)
    then have iw: "i < length (working_constraints s)" by (simp add: w)
    have wi: "working_constraints s ! i = subst_upto A (Suc k) (constraints s ! i)"
      using i by (simp add: w)
    have "working_constraints (UnAssign s) ! i =
        (if i \<in> set (var_to_constraints s ! k) then g i (working_constraints s ! i)
         else working_constraints s ! i)"
      unfolding W using nth_foldl_update [of g i "working_constraints s", OF idem iw] .
    also have "\<dots> = subst_upto A k (constraints s ! i)"
    proof (cases "mentions (constraints s ! i) k")
      case True
      then show ?thesis
        using problem_ok_vtc [OF assms(1) k(1) i]
        by (simp add: wi g_def subst_upto_UnAssign)
    next
      case False
      then show ?thesis
        using problem_ok_vtc [OF assms(1) k(1) i]
        by (simp add: wi subst_upto_not_mentioned)
    qed
    finally show "working_constraints (UnAssign s) ! i = map (subst_upto A k) (constraints s) ! i"
      using i by simp
  qed
  then show ?thesis by (simp add: working_ok_def k(2) A_def)
qed

section \<open>The solver: GetOptions\<close>

subsection \<open>The candidates of one constraint\<close>

lemma set_local_options_foldl:
  "set (foldl (\<lambda>local triplet.
              let choice = choice_of hole triplet in
              if choice > 0 \<and> (\<not> init \<or> choice \<in> set opts)
              then insort_insert choice local else local) acc ts) =
   set acc \<union> {v. 0 < v \<and> (\<not> init \<or> v \<in> set opts) \<and> (\<exists>t\<in>set ts. choice_of hole t = v)}"
  by (induction ts arbitrary: acc) (auto simp: Let_def set_insort_insert)

lemma set_local_options:
  "set (local_options st pat hole init opts) =
   {v. 0 < v \<and> (\<not> init \<or> v \<in> set opts) \<and> (\<exists>t\<in>set (Lookup st pat). choice_of hole t = v)}"
  unfolding local_options_def set_local_options_foldl by simp

lemma distinct_local_options_foldl:
  "distinct acc \<Longrightarrow> distinct (foldl (\<lambda>local triplet.
              let choice = choice_of hole triplet in
              if choice > 0 \<and> (\<not> init \<or> choice \<in> set opts)
              then insort_insert choice local else local) acc ts)"
  by (induction ts arbitrary: acc) (auto simp: Let_def distinct_insort_insert)

lemma distinct_local_options: "distinct (local_options st pat hole init opts)"
  unfolding local_options_def by (rule distinct_local_options_foldl) simp

lemma local_options_uninitialized:
  "local_options st pat hole False opts = local_options st pat hole False []"
  by (simp add: local_options_def)

lemma set_local_options_True:
  "set (local_options st pat hole True opts) = set (local_options st pat hole False []) \<inter> set opts"
  by (auto simp: set_local_options)

subsection \<open>The loop over the constraints of a variable\<close>

lemma set_constraint_loop_True:
  "set (constraint_loop st wc var is True opts) =
   set opts \<inter> (\<Inter>i\<in>set is. set (local_options st (emptied (wc ! i)) (hole_is_var var (wc ! i)) False []))"
proof (induction "is" arbitrary: opts)
  case Nil
  then show ?case by simp
next
  case (Cons i "is")
  let ?o = "local_options st (emptied (wc ! i)) (hole_is_var var (wc ! i)) True opts"
  show ?case
  proof (cases "?o = []")
    case True
    then have "set ?o = {}" by simp
    then show ?thesis using True unfolding set_local_options_True by (auto simp: Let_def)
  next
    case False
    then show ?thesis using Cons.IH [of ?o] by (auto simp: Let_def set_local_options_True)
  qed
qed

lemma set_constraint_loop_False:
  assumes "is \<noteq> []"
  shows "set (constraint_loop st wc var is False opts) =
   (\<Inter>i\<in>set is. set (local_options st (emptied (wc ! i)) (hole_is_var var (wc ! i)) False []))"
proof -
  obtain i js where "is": "is = i # js" using assms by (cases "is") auto
  let ?o = "local_options st (emptied (wc ! i)) (hole_is_var var (wc ! i)) False opts"
  have o: "?o = local_options st (emptied (wc ! i)) (hole_is_var var (wc ! i)) False []"
    by (rule local_options_uninitialized)
  show ?thesis
  proof (cases "?o = []")
    case True
    then have "set ?o = {}" by simp
    then show ?thesis using True o unfolding "is" by (auto simp: Let_def)
  next
    case False
    then show ?thesis using o unfolding "is" by (auto simp: Let_def set_constraint_loop_True)
  qed
qed

lemma constraint_loop_uninitialized:
  "is \<noteq> [] \<Longrightarrow> constraint_loop st wc var is False opts = constraint_loop st wc var is False []"
  by (cases "is") (simp_all add: Let_def local_options_uninitialized [of _ _ _ opts])

lemma distinct_constraint_loop:
  "distinct opts \<Longrightarrow> distinct (constraint_loop st wc var is init opts)"
  by (induction "is" arbitrary: init opts) (auto simp: Let_def distinct_local_options)

subsection \<open>The inequality filter\<close>

lemma inequality_filter_Suc:
  "inequality_filter me A (Suc k) opts =
   (let opts' = inequality_filter me A k opts in
    if A ! k \<in> set opts' \<and> k \<notin> me then remove1 (A ! k) opts' else opts')"
  by (simp add: inequality_filter_def Let_def)

lemma inequality_filter_0: "inequality_filter me A 0 opts = opts"
  by (simp add: inequality_filter_def)

lemma distinct_inequality_filter:
  "distinct opts \<Longrightarrow> distinct (inequality_filter me A k opts)"
  by (induction k) (auto simp: inequality_filter_Suc inequality_filter_0 Let_def)

lemma set_inequality_filter:
  "distinct opts \<Longrightarrow>
   set (inequality_filter me A k opts) = set opts - {A ! i | i. i < k \<and> i \<notin> me}"
proof (induction k)
  case 0
  then show ?case by (simp add: inequality_filter_0)
next
  case (Suc k)
  have d: "distinct (inequality_filter me A k opts)"
    using Suc.prems by (rule distinct_inequality_filter)
  show ?case
    using Suc d by (auto simp: inequality_filter_Suc Let_def less_Suc_eq)
qed

lemma inequality_filter_Nil: "inequality_filter me A k [] = []"
  by (induction k) (auto simp: inequality_filter_Suc inequality_filter_0 Let_def)

lemma inequality_filter_take:
  "inequality_filter me (take k A) k opts = inequality_filter me A k opts"
  unfolding inequality_filter_def by (rule foldl_cong) auto

subsection \<open>GetOptions computes the candidates of the level\<close>

lemma subst_pos_take: "k \<le> length A \<Longrightarrow> subst_pos (take k A) k x = subst_pos A k x"
  by (simp add: subst_pos_def)

lemma subst_upto_take: "k \<le> length A \<Longrightarrow> subst_upto (take k A) k c = subst_upto A k c"
  by (cases c) (simp add: subst_upto_def subst_pos_take)

lemma level_options_same_problem:
  "same_problem s s' \<Longrightarrow> level_options s' p = level_options s p"
  by (simp add: level_options_def same_problem_def)

lemma completions_same_problem:
  "same_problem s s' \<Longrightarrow> completions s' d p = completions s d p"
  by (induction d arbitrary: p) (simp_all add: level_options_same_problem)

lemma distinct_level_options: "distinct (level_options s p)"
  by (simp add: level_options_def Let_def distinct_inequality_filter distinct_constraint_loop)

lemma level_options_unconstrained:
  "var_to_constraints s ! length p = [] \<Longrightarrow> level_options s p = []"
  by (simp add: level_options_def Let_def inequality_filter_Nil)

lemma GetOptions_states:
  assumes "0 \<le> current_index s" and "current_index s < int (n_variables s)"
    and "length (assignment s) = n_variables s"
    and "working_ok s"
    and "var_to_constraints s ! nat (current_index s) = [] \<longrightarrow>
         options (states s ! nat (current_index s)) = []"
  shows "states (GetOptions s) = (states s)[nat (current_index s) :=
           \<lparr>options = level_options s (take (nat (current_index s)) (assignment s)),
            options_it = level_options s (take (nat (current_index s)) (assignment s))\<rparr>]"
proof -
  define k where "k = nat (current_index s)"
  define A where "A = assignment s"
  have k: "current_index s = int k" "k \<le> length A" "k < n_variables s"
    using assms(1,2,3) by (auto simp: k_def A_def)
  have w: "map (subst_upto (take k A) k) (constraints s) = working_constraints s"
    using assms(4) k(2) by (simp add: working_ok_def k_def A_def subst_upto_take)
  have len: "length (take k A) = k" using k(2) by simp
  have cl: "constraint_loop (structure_ref s) (working_constraints s) (- int k)
              (var_to_constraints s ! k) False (options (states s ! k)) =
            constraint_loop (structure_ref s) (working_constraints s) (- int k)
              (var_to_constraints s ! k) False []"
  proof (cases "var_to_constraints s ! k = []")
    case True
    then show ?thesis using assms(5) by (simp add: k_def)
  next
    case False
    then show ?thesis by (rule constraint_loop_uninitialized)
  qed
  have "level_options s (take k A) =
      inequality_filter (may_equal s ! k) A k
        (constraint_loop (structure_ref s) (working_constraints s) (- int k)
              (var_to_constraints s ! k) False (options (states s ! k)))"
    unfolding level_options_def Let_def len w cl inequality_filter_take ..
  then show ?thesis
    using k(3) by (simp add: GetOptions_def Let_def CurrentVariable_def k(1) A_def)
qed

subsection \<open>The candidate lists are ascending, as the iteration of a \<^verbatim>\<open>std::set\<close>\<close>

lemma sorted_local_options_foldl:
  "sorted acc \<Longrightarrow> sorted (foldl (\<lambda>local triplet.
              let choice = choice_of hole triplet in
              if choice > 0 \<and> (\<not> init \<or> choice \<in> set opts)
              then insort_insert choice local else local) acc ts)"
  by (induction ts arbitrary: acc) (auto simp: Let_def sorted_insort_insert)

lemma sorted_local_options: "sorted (local_options st pat hole init opts)"
  unfolding local_options_def by (rule sorted_local_options_foldl) simp

lemma sorted_constraint_loop:
  "sorted opts \<Longrightarrow> sorted (constraint_loop st wc var is init opts)"
  by (induction "is" arbitrary: init opts) (auto simp: Let_def sorted_local_options)

lemma sorted_inequality_filter:
  "sorted opts \<Longrightarrow> sorted (inequality_filter me A k opts)"
  by (induction k) (auto simp: inequality_filter_Suc inequality_filter_0 Let_def sorted_remove1)

lemma sorted_level_options: "sorted (level_options s p)"
  by (simp add: level_options_def Let_def sorted_inequality_filter sorted_constraint_loop)

section \<open>The solver: the loop of NextAssignment\<close>

subsection \<open>The branches of the loop\<close>

lemma loop_exhausted:
  "current_index s < 0 \<Longrightarrow> NextAssignment_loop s = Some ([], s\<lparr>valid := False\<rparr>)"
  by (subst NextAssignment_loop.simps) simp

lemma loop_backtrack:
  "0 \<le> current_index s \<Longrightarrow> options_it (states s ! nat (current_index s)) = [] \<Longrightarrow>
   NextAssignment_loop s = NextAssignment_loop (UnAssign s)"
  by (subst NextAssignment_loop.simps) simp

lemma descend_fields [simp]:
  "structure_ref (descend s) = structure_ref s"
  "n_variables (descend s) = n_variables s"
  "valid (descend s) = valid s"
  "constraints (descend s) = constraints s"
  "var_to_constraints (descend s) = var_to_constraints s"
  "may_equal (descend s) = may_equal s"
  "current_index (descend s) = current_index s + 1"
  "assignment (descend s) = (assignment s)[nat (current_index s) := hd (options_it (states s ! nat (current_index s)))]"
  "working_constraints (descend s) = working_constraints (Assign (hd (options_it (states s ! nat (current_index s)))) s)"
  "states (descend s) = (states s)[nat (current_index s) := (states s ! nat (current_index s))
       \<lparr>options_it := tl (options_it (states s ! nat (current_index s)))\<rparr>]"
  by (simp_all add: descend_def Let_def)

lemma loop_found:
  "0 \<le> current_index s \<Longrightarrow> options_it (states s ! nat (current_index s)) \<noteq> [] \<Longrightarrow>
   current_index s + 1 = int (n_variables s) \<Longrightarrow>
   NextAssignment_loop s = Some (assignment (descend s), UnAssign (descend s))"
  by (subst NextAssignment_loop.simps) (simp add: descend_def Let_def)

lemma loop_descend:
  "0 \<le> current_index s \<Longrightarrow> options_it (states s ! nat (current_index s)) \<noteq> [] \<Longrightarrow>
   current_index s + 1 \<noteq> int (n_variables s) \<Longrightarrow>
   NextAssignment_loop s = NextAssignment_loop (GetOptions (descend s))"
  by (subst NextAssignment_loop.simps) (simp add: descend_def Let_def)

subsection \<open>The measure decreases\<close>

lemma lex_first_difference:
  assumes "k < length xs" and "length ys = length xs" and "take k ys = take k xs"
    and "ys ! k < (xs ! k :: nat)"
  shows "(ys @ [a], xs @ [b]) \<in> lex less_than"
proof -
  have xs: "xs = take k xs @ xs ! k # drop (Suc k) xs"
    using assms(1) by (simp add: id_take_nth_drop)
  have ys: "ys = take k xs @ ys ! k # drop (Suc k) ys"
    using assms(1,2,3) id_take_nth_drop [of k ys] by simp
  have "(ys ! k # drop (Suc k) ys @ [a], xs ! k # drop (Suc k) xs @ [b]) \<in> lex less_than"
    using assms(2,4) by simp
  then have "(take k xs @ ys ! k # drop (Suc k) ys @ [a], take k xs @ xs ! k # drop (Suc k) xs @ [b])
      \<in> lex less_than"
    by (rule lex_append_leftI)
  then show ?thesis using xs ys by (metis append.assoc append_Cons)
qed

lemma lex_last_difference:
  "a < (b::nat) \<Longrightarrow> (xs @ [a], xs @ [b]) \<in> lex less_than"
  by (rule lex_append_leftI) simp

lemma measure_backtrack:
  "0 \<le> current_index s \<Longrightarrow>
   (search_measure (UnAssign s), search_measure s) \<in> lex less_than"
  unfolding search_measure_def by (simp add: lex_last_difference)

lemma GetOptions_states_update:
  "\<exists>X. states (GetOptions s) = (states s)[nat (current_index s) := X]"
proof (cases "current_index s \<ge> int (n_variables s) \<or> current_index s < 0")
  case True
  then have "states (GetOptions s) = (states s)[nat (current_index s) := states s ! nat (current_index s)]"
    by (simp add: GetOptions_def)
  then show ?thesis by blast
next
  case False
  then show ?thesis by (simp add: GetOptions_def Let_def) (rule exI, rule refl)
qed

lemma measure_descend:
  assumes "0 \<le> current_index s" and "nat (current_index s) < length (states s)"
    and "options_it (states s ! nat (current_index s)) \<noteq> []"
  shows "(search_measure (GetOptions (descend s)), search_measure s) \<in> lex less_than"
proof -
  define k where "k = nat (current_index s)"
  define f where "f = (\<lambda>st :: State. length (options_it st))"
  have k: "current_index s = int k" "k < length (states s)" using assms(1,2) by (simp_all add: k_def)
  have Sk: "nat (int k + 1) = Suc k" by simp
  obtain X where X: "states (GetOptions (descend s)) = (states (descend s))[Suc k := X]"
    using GetOptions_states_update [of "descend s"] by (auto simp: k(1) Sk)
  define ys where "ys = map f (states (GetOptions (descend s)))"
  define xs where "xs = map f (states s)"
  have 1: "k < length xs" using k(2) by (simp add: xs_def)
  have 2: "length ys = length xs" by (simp add: ys_def xs_def X k(1))
  have 3: "take k ys = take k xs" by (simp add: ys_def xs_def X k(1) take_map)
  have "ys ! k = f ((states s ! k)\<lparr>options_it := tl (options_it (states s ! k))\<rparr>)"
    using k(2) by (simp add: ys_def X k(1))
  then have 4: "ys ! k < xs ! k"
    using k(2) assms(3) by (simp add: xs_def k(1) f_def)
  show ?thesis
    unfolding search_measure_def using lex_first_difference [OF 1 2 3 4]
    by (simp add: xs_def ys_def f_def)
qed

subsection \<open>The invariant of the search\<close>

lemma same_problem_refl [simp]: "same_problem s s"
  by (simp add: same_problem_def)

lemma same_problem_trans: "same_problem s s' \<Longrightarrow> same_problem s' s'' \<Longrightarrow> same_problem s s''"
  by (simp add: same_problem_def)

lemma same_problem_steps [simp]:
  "same_problem s (UnAssign s)" "same_problem s (descend s)" "same_problem s (GetOptions s)"
  "same_problem s (Assign v s)" "same_problem s (s\<lparr>valid := b\<rparr>)"
  by (simp_all add: same_problem_def)

lemma problem_ok_same_problem: "same_problem s s' \<Longrightarrow> problem_ok s \<Longrightarrow> problem_ok s'"
  by (simp add: same_problem_def problem_ok_def)

lemma level_options_pos:
  assumes "v \<in> set (level_options s p)"
  shows "0 < v"
proof -
  define cl where "cl = constraint_loop (structure_ref s) (map (subst_upto p (length p)) (constraints s))
      (- int (length p)) (var_to_constraints s ! length p) False []"
  have d: "distinct cl" by (simp add: cl_def distinct_constraint_loop)
  have "v \<in> set cl"
    using assms set_inequality_filter [OF d] by (simp add: level_options_def Let_def cl_def [symmetric])
  moreover have "var_to_constraints s ! length p \<noteq> []"
    using assms level_options_unconstrained [of s p] by auto
  ultimately obtain i where
    "v \<in> set (local_options (structure_ref s)
        (emptied (map (subst_upto p (length p)) (constraints s) ! i))
        (hole_is_var (- int (length p)) (map (subst_upto p (length p)) (constraints s) ! i)) False [])"
    unfolding cl_def using set_constraint_loop_False [of "var_to_constraints s ! length p"]
    by (metis (no_types, lifting) INT_E last_in_set)
  then show ?thesis by (simp add: set_local_options)
qed

lemma search_invD:
  assumes "search_inv s"
  shows "problem_ok s" and "0 \<le> current_index s" and "current_index s < int (n_variables s)"
    and "length (assignment s) = n_variables s" and "length (states s) = n_variables s"
    and "working_ok s"
    and "\<And>l. l \<le> nat (current_index s) \<Longrightarrow>
           options (states s ! l) = level_options s (take l (assignment s))"
    and "\<And>l. l < nat (current_index s) \<Longrightarrow>
           \<exists>pre. options (states s ! l) = pre @ assignment s ! l # options_it (states s ! l)"
    and "\<exists>pre. options (states s ! nat (current_index s)) =
           pre @ options_it (states s ! nat (current_index s))"
    and "\<And>l. l < n_variables s \<Longrightarrow> var_to_constraints s ! l = [] \<Longrightarrow> options (states s ! l) = []"
  using assms unfolding search_inv_def by blast+

lemma search_invI:
  assumes "problem_ok s" and "0 \<le> current_index s" and "current_index s < int (n_variables s)"
    and "length (assignment s) = n_variables s" and "length (states s) = n_variables s"
    and "working_ok s"
    and "\<And>l. l \<le> nat (current_index s) \<Longrightarrow>
           options (states s ! l) = level_options s (take l (assignment s))"
    and "\<And>l. l < nat (current_index s) \<Longrightarrow>
           \<exists>pre. options (states s ! l) = pre @ assignment s ! l # options_it (states s ! l)"
    and "\<exists>pre. options (states s ! nat (current_index s)) =
           pre @ options_it (states s ! nat (current_index s))"
    and "\<And>l. l < n_variables s \<Longrightarrow> var_to_constraints s ! l = [] \<Longrightarrow> options (states s ! l) = []"
  shows "search_inv s"
  using assms unfolding search_inv_def by blast

lemma search_inv_assigned:
  assumes "search_inv s" and "l < nat (current_index s)"
  shows "assignment s ! l \<in> set (level_options s (take l (assignment s)))"
proof -
  obtain pre where "options (states s ! l) = pre @ assignment s ! l # options_it (states s ! l)"
    using search_invD(8) [OF assms] by blast
  moreover have "options (states s ! l) = level_options s (take l (assignment s))"
    using search_invD(7) [OF assms(1), of l] assms(2) by simp
  ultimately show ?thesis by (metis in_set_conv_decomp)
qed

lemma search_inv_assigned_pos:
  "search_inv s \<Longrightarrow> l < nat (current_index s) \<Longrightarrow> 0 < assignment s ! l"
  using search_inv_assigned level_options_pos by blast

subsection \<open>The assignments still to produce\<close>

lemma pending_eq:
  assumes "same_problem s s'" and "take l (assignment s') = take l (assignment s)"
    and "options_it (states s' ! l) = options_it (states s ! l)"
  shows "pending s' l = pending s l"
proof -
  have "n_variables s' = n_variables s" using assms(1) by (simp add: same_problem_def)
  then show ?thesis
    using assms(2,3) completions_same_problem [OF assms(1)] by (simp add: pending_def)
qed

lemma pending_below_eq:
  assumes "same_problem s s'"
    and "\<And>l. l < k \<Longrightarrow> take l (assignment s') = take l (assignment s)"
    and "\<And>l. l < k \<Longrightarrow> options_it (states s' ! l) = options_it (states s ! l)"
  shows "pending_below s' k = pending_below s k"
  using assms(2,3)
proof (induction k)
  case 0
  then show ?case by simp
next
  case (Suc k)
  then show ?case using pending_eq [OF assms(1), of k] by simp
qed

lemma pending_Nil: "options_it (states s ! l) = [] \<Longrightarrow> pending s l = []"
  by (simp add: pending_def)

lemma todo_unfold:
  "todo s = pending s (nat (current_index s)) @ pending_below s (nat (current_index s))"
  by (simp add: todo_def)

subsection \<open>Backtracking keeps the invariant\<close>

lemma working_ok_cong:
  "working_constraints s' = working_constraints s \<Longrightarrow> assignment s' = assignment s \<Longrightarrow>
   current_index s' = current_index s \<Longrightarrow> constraints s' = constraints s \<Longrightarrow>
   working_ok s' = working_ok s"
  by (simp add: working_ok_def)

lemma inv_backtrack:
  assumes "search_inv s" and "options_it (states s ! nat (current_index s)) = []"
    and "0 < current_index s"
  shows "search_inv (UnAssign s)" and "todo (UnAssign s) = todo s"
proof -
  note inv = search_invD [OF assms(1)]
  define k where "k = nat (current_index s - 1)"
  have k: "current_index s = int k + 1" "nat (current_index s) = Suc k"
    using assms(3) by (simp_all add: k_def)
  have ck: "nat (current_index (UnAssign s)) = k" "nat (current_index s - 1) = k" by (simp_all add: k_def)
  have lo: "level_options (UnAssign s) p = level_options s p" for p
    by (rule level_options_same_problem) simp
  show "search_inv (UnAssign s)"
  proof (rule search_invI)
    show "problem_ok (UnAssign s)"
      using inv(1) by (rule problem_ok_same_problem [rotated]) simp
    show "0 \<le> current_index (UnAssign s)" using assms(3) by simp
    show "current_index (UnAssign s) < int (n_variables (UnAssign s))" using inv(3) by simp
    show "length (assignment (UnAssign s)) = n_variables (UnAssign s)" using inv(4) by simp
    show "length (states (UnAssign s)) = n_variables (UnAssign s)" using inv(5) by simp
    show "working_ok (UnAssign s)"
      using inv(1,2,3,6) by (intro working_ok_UnAssign) simp_all
    show "options (states (UnAssign s) ! l) = level_options (UnAssign s) (take l (assignment (UnAssign s)))"
      if "l \<le> nat (current_index (UnAssign s))" for l
      using that inv(7) [of l] by (simp add: lo ck k(2))
    show "\<exists>pre. options (states (UnAssign s) ! l) =
        pre @ assignment (UnAssign s) ! l # options_it (states (UnAssign s) ! l)"
      if "l < nat (current_index (UnAssign s))" for l
      using that inv(8) [of l] by (simp add: ck k(2))
    show "\<exists>pre. options (states (UnAssign s) ! nat (current_index (UnAssign s))) =
        pre @ options_it (states (UnAssign s) ! nat (current_index (UnAssign s)))"
    proof -
      obtain pre where "options (states s ! k) = pre @ assignment s ! k # options_it (states s ! k)"
        using inv(8) [of k] by (auto simp: k(2))
      then have "options (states s ! k) = (pre @ [assignment s ! k]) @ options_it (states s ! k)"
        by simp
      then have "\<exists>pre. options (states s ! k) = pre @ options_it (states s ! k)" by (rule exI)
      then show ?thesis unfolding ck(1) by (simp only: UnAssign_fields)
    qed
    show "options (states (UnAssign s) ! l) = []"
      if "l < n_variables (UnAssign s)" "var_to_constraints (UnAssign s) ! l = []" for l
      using that inv(10) [of l] by simp
  qed
  have "pending_below (UnAssign s) (Suc k) = pending_below s (Suc k)"
    by (rule pending_below_eq) simp_all
  then show "todo (UnAssign s) = todo s"
    using assms(2) by (simp add: todo_def ck k(2) pending_Nil)
qed

subsection \<open>The state after Assign and the cursor's increment\<close>

lemma descend_working_ok:
  assumes "search_inv s"
  shows "working_ok (descend s)"
proof -
  note inv = search_invD [OF assms(1)]
  let ?v = "hd (options_it (states s ! nat (current_index s)))"
  have "working_ok (Assign ?v s)"
    using inv(1,2,3,4,6) search_inv_assigned_pos [OF assms] by (intro working_ok_Assign) simp_all
  then show ?thesis
    using working_ok_cong [of "descend s" "Assign ?v s"] by simp
qed

lemma update_last: "length A = Suc k \<Longrightarrow> A[k := v] = take k A @ [v]"
  by (simp add: upd_conv_take_nth_drop)

lemma take_Suc_update: "k < length A \<Longrightarrow> take (Suc k) (A[k := v]) = take k A @ [v]"
  by (simp add: take_Suc_conv_app_nth)

subsection \<open>A complete assignment is returned\<close>

lemma inv_found:
  assumes "search_inv s" and "options_it (states s ! nat (current_index s)) = v # r"
    and "current_index s + 1 = int (n_variables s)"
  shows "search_inv (UnAssign (descend s))"
    and "todo s = assignment (descend s) # todo (UnAssign (descend s))"
    and "length (assignment (descend s)) = n_variables s"
proof -
  note inv = search_invD [OF assms(1)]
  define k where "k = nat (current_index s)"
  define s' where "s' = UnAssign (descend s)"
  have k: "current_index s = int k" "n_variables s = Suc k" "k < length (states s)"
    "length (assignment s) = Suc k"
    using assms(3) inv(2,4,5) by (simp_all add: k_def)
  have sp: "same_problem s s'"
    unfolding s'_def by (rule same_problem_trans [of _ "descend s"]) simp_all
  have lo: "level_options s' p = level_options s p" for p
    using sp by (rule level_options_same_problem)
  have c: "current_index s' = int k" by (simp add: s'_def k(1))
  have A: "assignment s' = (assignment s)[k := v]"
    by (simp add: s'_def k(1) assms(2) [unfolded k_def [symmetric]])
  have S: "states s' = (states s)[k := (states s ! k)\<lparr>options_it := r\<rparr>]"
    by (simp add: s'_def k(1) assms(2) [unfolded k_def [symmetric]])
  have opt: "options (states s' ! l) = options (states s ! l)" for l
    using k(3) by (cases "l = k") (simp_all add: S)
  have it: "options_it (states s' ! l) = options_it (states s ! l)" if "l \<noteq> k" for l
    using that by (simp add: S)
  have itk: "options_it (states s' ! k) = r" using k(3) by (simp add: S)
  show inv': "search_inv (UnAssign (descend s))"
    unfolding s'_def [symmetric]
  proof (rule search_invI)
    show "problem_ok s'" using sp inv(1) by (rule problem_ok_same_problem)
    show "0 \<le> current_index s'" by (simp add: c)
    show "current_index s' < int (n_variables s')" by (simp add: s'_def k(1,2))
    show "length (assignment s') = n_variables s'" using inv(4) by (simp add: s'_def)
    show "length (states s') = n_variables s'" using inv(5) by (simp add: s'_def)
    show "working_ok s'"
      unfolding s'_def
    proof (rule working_ok_UnAssign)
      show "problem_ok (descend s)" using inv(1) by (rule problem_ok_same_problem [rotated]) simp
      show "working_ok (descend s)" using assms(1) by (rule descend_working_ok)
    qed (simp_all add: k(1,2))
    show "options (states s' ! l) = level_options s' (take l (assignment s'))"
      if "l \<le> nat (current_index s')" for l
      using that inv(7) [of l] by (simp add: opt lo A c k(1))
    show "\<exists>pre. options (states s' ! l) = pre @ assignment s' ! l # options_it (states s' ! l)"
      if "l < nat (current_index s')" for l
      using that inv(8) [of l] by (simp add: opt it A c k(1))
    show "\<exists>pre. options (states s' ! nat (current_index s')) =
        pre @ options_it (states s' ! nat (current_index s'))"
    proof -
      obtain pre where "options (states s ! k) = pre @ v # r"
        using inv(9) assms(2) by (auto simp: k_def)
      then have "options (states s' ! k) = (pre @ [v]) @ r" by (simp add: opt)
      then have "\<exists>pre. options (states s' ! k) = pre @ r" by (rule exI)
      then show ?thesis by (simp add: c itk)
    qed
    show "options (states s' ! l) = []"
      if "l < n_variables s'" "var_to_constraints s' ! l = []" for l
      using that inv(10) [of l] by (simp add: opt) (simp add: s'_def)
  qed
  have d: "(assignment s)[k := hd (options_it (states s ! k))] = take k (assignment s) @ [v]"
    using update_last [OF k(4)] by (simp add: assms(2) [unfolded k_def [symmetric]])
  have "pending s k =
      completions s 0 (take k (assignment s) @ [v]) @
      concat (map (\<lambda>v. completions s 0 (take k (assignment s) @ [v])) r)"
    unfolding pending_def k(2) assms(2) [unfolded k_def [symmetric]] by simp
  moreover have "pending s' k = concat (map (\<lambda>v. completions s 0 (take k (assignment s) @ [v])) r)"
    unfolding pending_def using sp completions_same_problem [OF sp]
    by (simp add: itk A same_problem_def k(2))
  moreover have "pending_below s' k = pending_below s k"
    using sp by (rule pending_below_eq) (simp_all add: A it)
  ultimately show "todo s = assignment (descend s) # todo (UnAssign (descend s))"
    unfolding s'_def [symmetric] by (simp add: todo_unfold c k(1) d)
  show "length (assignment (descend s)) = n_variables s"
    using inv(4) by simp
qed

subsection \<open>Descending to the next variable keeps the invariant\<close>

lemma inv_descend:
  assumes "search_inv s" and "options_it (states s ! nat (current_index s)) = v # r"
    and "current_index s + 1 \<noteq> int (n_variables s)"
  shows "search_inv (GetOptions (descend s))"
    and "todo (GetOptions (descend s)) = todo s"
proof -
  note inv = search_invD [OF assms(1)]
  define k where "k = nat (current_index s)"
  define s' where "s' = GetOptions (descend s)"
  define A' where "A' = (assignment s)[k := v]"
  define LO where "LO = level_options s (take k (assignment s) @ [v])"
  have k: "current_index s = int k" "Suc k < n_variables s" "Suc k < length (states s)"
    "Suc k < length (assignment s)"
    using assms(3) inv(2,3,4,5) by (simp_all add: k_def)
  have av: "options_it (states s ! k) = v # r" using assms(2) by (simp add: k_def)
  have nk: "nat (int k + 1) = Suc k" by simp
  have sp: "same_problem s s'"
    unfolding s'_def by (rule same_problem_trans [of _ "descend s"]) simp_all
  have lo: "level_options s' p = level_options s p" for p
    using sp by (rule level_options_same_problem)
  have lod: "level_options (descend s) p = level_options s p" for p
    by (rule level_options_same_problem) simp
  have c: "current_index s' = int k + 1" "nat (current_index s') = Suc k"
    by (simp_all add: s'_def k(1))
  have A: "assignment s' = A'"
    by (simp add: s'_def k(1) av A'_def)
  have tA: "take (Suc k) A' = take k (assignment s) @ [v]"
    unfolding A'_def using k(4) by (intro take_Suc_update) simp
  have wd: "working_ok (descend s)" using assms(1) by (rule descend_working_ok)
  have "states s' = (states (descend s))[nat (current_index (descend s)) :=
           \<lparr>options = level_options (descend s) (take (nat (current_index (descend s))) (assignment (descend s))),
            options_it = level_options (descend s) (take (nat (current_index (descend s))) (assignment (descend s)))\<rparr>]"
    unfolding s'_def
  proof (rule GetOptions_states)
    show "working_ok (descend s)" by (rule wd)
    show "var_to_constraints (descend s) ! nat (current_index (descend s)) = [] \<longrightarrow>
        options (states (descend s) ! nat (current_index (descend s))) = []"
      using inv(10) [of "Suc k"] k(2) by (simp add: k(1) nk)
  qed (use inv(4) k(2) in \<open>simp_all add: k(1)\<close>)
  then have S: "states s' = (states s)[k := (states s ! k)\<lparr>options_it := r\<rparr>,
      Suc k := \<lparr>options = LO, options_it = LO\<rparr>]"
    using tA by (simp add: k(1) nk av lod A'_def LO_def)
  have Sk: "states s' ! Suc k = \<lparr>options = LO, options_it = LO\<rparr>"
    using k(3) by (simp add: S)
  have Sl: "states s' ! l = (if l = k then (states s ! k)\<lparr>options_it := r\<rparr> else states s ! l)"
    if "l \<noteq> Suc k" for l
    using that k(3) by (simp add: S)
  have opt: "options (states s' ! l) = options (states s ! l)" if "l \<noteq> Suc k" for l
    using Sl [OF that] by simp
  show "search_inv (GetOptions (descend s))"
    unfolding s'_def [symmetric]
  proof (rule search_invI)
    show "problem_ok s'" using sp inv(1) by (rule problem_ok_same_problem)
    show "0 \<le> current_index s'" by (simp add: c)
    show "current_index s' < int (n_variables s')" using k(2) by (simp add: s'_def k(1))
    show "length (assignment s') = n_variables s'" using inv(4) by (simp add: s'_def)
    show "length (states s') = n_variables s'" using inv(5) by (simp add: s'_def)
    show "working_ok s'"
      using wd working_ok_cong [of s' "descend s"] by (simp add: s'_def)
    show "options (states s' ! l) = level_options s' (take l (assignment s'))"
      if "l \<le> nat (current_index s')" for l
    proof (cases "l = Suc k")
      case True
      then show ?thesis by (simp add: Sk lo A tA LO_def)
    next
      case False
      then have "l \<le> k" using that by (simp add: c(2))
      then show ?thesis using False inv(7) [of l] by (simp add: opt lo A A'_def k(1))
    qed
    show "\<exists>pre. options (states s' ! l) = pre @ assignment s' ! l # options_it (states s' ! l)"
      if "l < nat (current_index s')" for l
    proof (cases "l = k")
      case True
      obtain pre where "options (states s ! k) = pre @ v # r"
        using inv(9) av by (auto simp: k(1))
      then show ?thesis using True k(4) by (simp add: Sl A A'_def)
    next
      case False
      then have "l < k" using that by (simp add: c(2))
      then show ?thesis using inv(8) [of l] by (simp add: Sl A A'_def k(1))
    qed
    show "\<exists>pre. options (states s' ! nat (current_index s')) =
        pre @ options_it (states s' ! nat (current_index s'))"
      by (simp add: c(2) Sk)
    show "options (states s' ! l) = []"
      if "l < n_variables s'" "var_to_constraints s' ! l = []" for l
    proof (cases "l = Suc k")
      case True
      have "length (take k (assignment s) @ [v]) = Suc k" using k(4) by simp
      then have "LO = []"
        unfolding LO_def using that(2) True level_options_unconstrained [of s "take k (assignment s) @ [v]"]
        by (simp add: s'_def)
      then show ?thesis using True by (simp add: Sk)
    next
      case False
      then show ?thesis using that inv(10) [of l] by (simp add: opt) (simp add: s'_def)
    qed
  qed
  have n: "n_variables s - Suc k = Suc (n_variables s - Suc (Suc k))"
    using k(2) by simp
  have ns: "n_variables s' = n_variables s" by (simp add: s'_def)
  have cs: "completions s' d p = completions s d p" for d p
    using sp by (rule completions_same_problem)
  have "pending s' (Suc k) = completions s (n_variables s - Suc k) (take k (assignment s) @ [v])"
    unfolding pending_def n by (simp add: Sk A tA cs ns LO_def)
  moreover have "pending s' k =
      concat (map (\<lambda>v. completions s (n_variables s - Suc k) (take k (assignment s) @ [v])) r)"
    unfolding pending_def by (simp add: Sl A A'_def cs ns)
  moreover have "pending s k =
      completions s (n_variables s - Suc k) (take k (assignment s) @ [v]) @
      concat (map (\<lambda>v. completions s (n_variables s - Suc k) (take k (assignment s) @ [v])) r)"
    unfolding pending_def by (simp add: av)
  moreover have "pending_below s' k = pending_below s k"
    using sp by (rule pending_below_eq) (simp_all add: A A'_def Sl)
  ultimately show "todo (GetOptions (descend s)) = todo s"
    unfolding s'_def [symmetric] by (simp add: todo_unfold c(2) k(1))
qed

subsection \<open>The loop returns, and what it returns\<close>

lemma wf_search_measure: "wf (inv_image (lex less_than) search_measure)"
  by (intro wf_inv_image wf_lex wf_less_than)

lemma loop_correct:
  assumes "search_inv s"
  shows "\<exists>r s'. NextAssignment_loop s = Some (r, s') \<and> same_problem s s' \<and>
          ((r = [] \<and> todo s = [] \<and> \<not> valid s' \<and> current_index s' < 0) \<or>
           (length r = n_variables s \<and> todo s = r # todo s' \<and> search_inv s' \<and> valid s' = valid s))"
  using assms
proof (induction s rule: wf_induct_rule [OF wf_search_measure])
  case (1 s)
  note inv = search_invD [OF "1.prems"]
  show ?case
  proof (cases "options_it (states s ! nat (current_index s))")
    case Nil
    have l: "NextAssignment_loop s = NextAssignment_loop (UnAssign s)"
      using inv(2) Nil by (rule loop_backtrack)
    show ?thesis
    proof (cases "current_index s = 0")
      case True
      have "NextAssignment_loop s = Some ([], (UnAssign s)\<lparr>valid := False\<rparr>)"
        unfolding l using True by (intro loop_exhausted) simp
      moreover have "todo s = []" using Nil True by (simp add: todo_unfold pending_Nil)
      moreover have "same_problem s ((UnAssign s)\<lparr>valid := False\<rparr>)"
        by (simp add: same_problem_def)
      ultimately show ?thesis using True by simp
    next
      case False
      then have pos: "0 < current_index s" using inv(2) by simp
      have "(UnAssign s, s) \<in> inv_image (lex less_than) search_measure"
        using measure_backtrack [OF inv(2)] by simp
      from "1.IH" [OF this inv_backtrack(1) [OF "1.prems" Nil pos]]
      obtain r s' where r: "NextAssignment_loop (UnAssign s) = Some (r, s')"
        "same_problem (UnAssign s) s'"
        "(r = [] \<and> todo (UnAssign s) = [] \<and> \<not> valid s' \<and> current_index s' < 0) \<or>
         (length r = n_variables (UnAssign s) \<and> todo (UnAssign s) = r # todo s' \<and> search_inv s' \<and>
          valid s' = valid (UnAssign s))"
        by blast
      have "same_problem s s'"
        using r(2) by (rule same_problem_trans [rotated]) simp
      then show ?thesis
        using r(1,3) unfolding l inv_backtrack(2) [OF "1.prems" Nil pos] by simp
    qed
  next
    case (Cons v r)
    then have ne: "options_it (states s ! nat (current_index s)) \<noteq> []" by simp
    show ?thesis
    proof (cases "current_index s + 1 = int (n_variables s)")
      case True
      have "NextAssignment_loop s = Some (assignment (descend s), UnAssign (descend s))"
        using inv(2) ne True by (rule loop_found)
      moreover have "same_problem s (UnAssign (descend s))"
        by (rule same_problem_trans [of _ "descend s"]) simp_all
      moreover have "valid (UnAssign (descend s)) = valid s" by simp
      ultimately show ?thesis
        using inv_found [OF "1.prems" Cons True] by blast
    next
      case False
      let ?s = "GetOptions (descend s)"
      have l: "NextAssignment_loop s = NextAssignment_loop ?s"
        using inv(2) ne False by (rule loop_descend)
      have "nat (current_index s) < length (states s)" using inv(2,3,5) by simp
      then have "(?s, s) \<in> inv_image (lex less_than) search_measure"
        using measure_descend [OF inv(2) _ ne] by simp
      from "1.IH" [OF this inv_descend(1) [OF "1.prems" Cons False]]
      obtain r' s' where r: "NextAssignment_loop ?s = Some (r', s')"
        "same_problem ?s s'"
        "(r' = [] \<and> todo ?s = [] \<and> \<not> valid s' \<and> current_index s' < 0) \<or>
         (length r' = n_variables ?s \<and> todo ?s = r' # todo s' \<and> search_inv s' \<and>
          valid s' = valid ?s)"
        by blast
      have "same_problem s ?s"
        by (rule same_problem_trans [of _ "descend s"]) simp_all
      then have "same_problem s s'"
        using r(2) by (rule same_problem_trans)
      then show ?thesis
        using r(1,3) unfolding l inv_descend(2) [OF "1.prems" Cons False] by simp
    qed
  qed
qed

section \<open>The solver: the constructor\<close>

lemma mentions_IsVariable: "mentions c k \<Longrightarrow> any_variables c"
  by (auto simp: mentions_def any_variables_def list_ex_iff intro: bexI [of _ "- int k"])

lemma index_variables_ok:
  "index_variables xs n vtc = Inr vtc' \<Longrightarrow>
   length vtc' = length vtc \<and>
   (\<forall>x\<in>set xs. IsVariable x \<longrightarrow> nat (- x) < length vtc) \<and>
   (\<forall>k<length vtc. set (vtc' ! k) = set (vtc ! k) \<union> (if - int k \<in> set xs then {n} else {}))"
proof (induction xs arbitrary: vtc)
  case Nil
  then show ?case by simp
next
  case (Cons x xs)
  show ?case
  proof (cases "IsVariable x")
    case True
    with Cons.prems have r: "nat (- x) < length vtc"
      "index_variables xs n (vtc[nat (- x) := vtc ! nat (- x) @ [n]]) = Inr vtc'"
      by (simp_all split: if_splits)
    note IH = Cons.IH [OF r(2)]
    have "set (vtc' ! k) = set (vtc ! k) \<union> (if - int k \<in> set (x # xs) then {n} else {})"
      if "k < length vtc" for k
    proof -
      have "set (vtc' ! k) = set (vtc[nat (- x) := vtc ! nat (- x) @ [n]] ! k) \<union>
          (if - int k \<in> set xs then {n} else {})"
        using IH that by simp
      moreover have "nat (- x) = k \<longleftrightarrow> x = - int k"
        using True by (rule var_index)
      ultimately show ?thesis using that by (auto simp: nth_list_update)
    qed
    then show ?thesis using IH r(1) True by simp
  next
    case False
    with Cons.prems have r: "index_variables xs n vtc = Inr vtc'" by simp
    have "x \<noteq> - int k" for k using False by (auto simp: IsVariable_def)
    then have "(- int k \<in> set (x # xs)) = (- int k \<in> set xs)" for k by auto
    then show ?thesis using Cons.IH [OF r] False by (simp del: set_simps) simp
  qed
qed

lemma not_any_variables: "\<not> any_variables c \<Longrightarrow> x \<in> set (positions c) \<Longrightarrow> \<not> IsVariable x"
  by (auto simp: any_variables_def list_ex_iff)

lemma Solver_loop_frame:
  "Solver_loop cs s = Inr s' \<Longrightarrow>
   structure_ref s' = structure_ref s \<and> n_variables s' = n_variables s \<and>
   may_equal s' = may_equal s \<and> assignment s' = assignment s \<and> states s' = states s \<and>
   current_index s' = current_index s \<and> working_constraints s' = working_constraints s \<and>
   length (var_to_constraints s') = length (var_to_constraints s) \<and>
   (valid s' \<longrightarrow> valid s)"
proof (induction cs arbitrary: s)
  case Nil
  then show ?case by simp
next
  case (Cons c cs)
  from Cons.prems obtain vtc where
    vtc: "index_variables (positions c) (length (constraints s)) (var_to_constraints s) = Inr vtc"
    by (auto split: sum.splits)
  note iv = index_variables_ok [OF vtc]
  let ?s1 = "s\<lparr>var_to_constraints := vtc\<rparr>"
  consider (param) "any_variables c" "Solver_loop cs (?s1\<lparr>constraints := constraints s @ [c]\<rparr>) = Inr s'"
    | (false) "\<not> any_variables c" "\<not> IsTrue (structure_ref s) c" "s' = ?s1\<lparr>valid := False\<rparr>"
    | (true) "\<not> any_variables c" "IsTrue (structure_ref s) c" "Solver_loop cs ?s1 = Inr s'"
    using Cons.prems vtc by (auto simp: Let_def split: if_splits)
  then show ?case
  proof cases
    case param
    then show ?thesis using Cons.IH [OF param(2)] iv by simp
  next
    case false
    then show ?thesis using iv by simp
  next
    case true
    then show ?thesis using Cons.IH [OF true(3)] iv by simp
  qed
qed

lemma Solver_loop_valid:
  "Solver_loop cs s = Inr s' \<Longrightarrow> valid s' \<Longrightarrow>
   constraints s' = constraints s @ filter any_variables cs \<and>
   (\<forall>c\<in>set cs. \<not> any_variables c \<longrightarrow> IsTrue (structure_ref s) c) \<and>
   (\<forall>c\<in>set cs. \<forall>x\<in>set (positions c). IsVariable x \<longrightarrow> nat (- x) < length (var_to_constraints s)) \<and>
   (\<forall>k<length (var_to_constraints s). set (var_to_constraints s' ! k) =
      set (var_to_constraints s ! k) \<union>
      {i. length (constraints s) \<le> i \<and> i < length (constraints s') \<and> mentions (constraints s' ! i) k})"
proof (induction cs arbitrary: s)
  case Nil
  then show ?case by auto
next
  case (Cons c cs)
  from Cons.prems obtain vtc where
    vtc: "index_variables (positions c) (length (constraints s)) (var_to_constraints s) = Inr vtc"
    by (auto split: sum.splits)
  note iv = index_variables_ok [OF vtc]
  let ?s1 = "s\<lparr>var_to_constraints := vtc\<rparr>"
  consider (param) "any_variables c" "Solver_loop cs (?s1\<lparr>constraints := constraints s @ [c]\<rparr>) = Inr s'"
    | (true) "\<not> any_variables c" "IsTrue (structure_ref s) c" "Solver_loop cs ?s1 = Inr s'"
    using Cons.prems vtc by (auto simp: Let_def split: if_splits)
  then show ?case
  proof cases
    case param
    let ?s2 = "?s1\<lparr>constraints := constraints s @ [c]\<rparr>"
    note IH = Cons.IH [OF param(2) Cons.prems(2)]
    have cs': "constraints s' = constraints s @ c # filter any_variables cs"
      using IH by simp
    have "set (var_to_constraints s' ! k) =
      set (var_to_constraints s ! k) \<union>
      {i. length (constraints s) \<le> i \<and> i < length (constraints s') \<and> mentions (constraints s' ! i) k}"
      if "k < length (var_to_constraints s)" for k
    proof -
      have "set (var_to_constraints s' ! k) = set (vtc ! k) \<union>
          {i. Suc (length (constraints s)) \<le> i \<and> i < length (constraints s') \<and> mentions (constraints s' ! i) k}"
        using IH that iv by simp
      moreover have "set (vtc ! k) = set (var_to_constraints s ! k) \<union>
          (if mentions c k then {length (constraints s)} else {})"
        using iv that by (simp add: mentions_def)
      moreover have "constraints s' ! length (constraints s) = c" "length (constraints s) < length (constraints s')"
        by (simp_all add: cs')
      ultimately show ?thesis
        by (auto simp: Suc_le_eq le_less)
    qed
    then show ?thesis using IH iv param(1) by simp
  next
    case true
    note IH = Cons.IH [OF true(3) Cons.prems(2)]
    have "set (vtc ! k) = set (var_to_constraints s ! k)" if "k < length (var_to_constraints s)" for k
      using iv that mentions_IsVariable [of c k] true(1) by (auto simp: mentions_def)
    then show ?thesis using IH iv true(1,2) by simp
  qed
qed

lemma Solver_loop_invalid:
  "Solver_loop cs s = Inr s' \<Longrightarrow> valid s \<Longrightarrow> \<not> valid s' \<Longrightarrow>
   \<exists>c\<in>set cs. \<not> any_variables c \<and> \<not> IsTrue (structure_ref s) c"
proof (induction cs arbitrary: s)
  case Nil
  then show ?case by simp
next
  case (Cons c cs)
  from Cons.prems obtain vtc where
    vtc: "index_variables (positions c) (length (constraints s)) (var_to_constraints s) = Inr vtc"
    by (auto split: sum.splits)
  let ?s1 = "s\<lparr>var_to_constraints := vtc\<rparr>"
  consider (param) "any_variables c" "Solver_loop cs (?s1\<lparr>constraints := constraints s @ [c]\<rparr>) = Inr s'"
    | (false) "\<not> any_variables c" "\<not> IsTrue (structure_ref s) c"
    | (true) "\<not> any_variables c" "IsTrue (structure_ref s) c" "Solver_loop cs ?s1 = Inr s'"
    using Cons.prems vtc by (auto simp: Let_def split: if_splits)
  then show ?case
  proof cases
    case param
    then show ?thesis using Cons.IH [OF param(2)] Cons.prems(2,3) by simp
  next
    case false
    then show ?thesis by simp
  next
    case true
    then show ?thesis using Cons.IH [OF true(3)] Cons.prems(2,3) by simp
  qed
qed

lemma subst_upto_0: "subst_upto A 0 c = c"
  by (cases c) (simp add: subst_upto_def subst_pos_def)

lemma map_subst_upto_0: "map (subst_upto A 0) cs = cs"
  by (rule map_idI) (rule subst_upto_0)

lemma new_Solver_cases:
  assumes "new_Solver st n cs me = Inr s"
  obtains s1 where "0 < n" and "Solver_loop cs (init_Solver st n me) = Inr s1"
    and "s = (if valid s1 then GetOptions (s1\<lparr>working_constraints := constraints s1\<rparr>) else s1)"
  using assms unfolding new_Solver_def by (auto split: if_splits sum.splits)

lemma new_Solver_frame:
  assumes "new_Solver st n cs me = Inr s"
  shows "structure_ref s = st" and "n_variables s = n" and "may_equal s = me" and "0 < n"
    and "current_index s = 0" and "length (assignment s) = n" and "length (states s) = n"
    and "length (var_to_constraints s) = n"
proof -
  from assms obtain s1 where s1: "0 < n" "Solver_loop cs (init_Solver st n me) = Inr s1"
    "s = (if valid s1 then GetOptions (s1\<lparr>working_constraints := constraints s1\<rparr>) else s1)"
    by (rule new_Solver_cases)
  note f = Solver_loop_frame [OF s1(2)]
  show "structure_ref s = st" "n_variables s = n" "may_equal s = me" "0 < n"
    "current_index s = 0" "length (assignment s) = n" "length (states s) = n"
    "length (var_to_constraints s) = n"
    using f s1(1) by (simp_all add: s1(3) init_Solver_def)
qed

lemma new_Solver_valid_iff:
  assumes "new_Solver st n cs me = Inr s"
  shows "valid s \<longleftrightarrow> (\<forall>c\<in>set cs. \<not> any_variables c \<longrightarrow> IsTrue st c)"
proof -
  from assms obtain s1 where s1: "0 < n" "Solver_loop cs (init_Solver st n me) = Inr s1"
    "s = (if valid s1 then GetOptions (s1\<lparr>working_constraints := constraints s1\<rparr>) else s1)"
    by (rule new_Solver_cases)
  have v: "valid s = valid s1" by (simp add: s1(3))
  have "valid s1 \<Longrightarrow> \<forall>c\<in>set cs. \<not> any_variables c \<longrightarrow> IsTrue st c"
    using Solver_loop_valid [OF s1(2)] by (simp add: init_Solver_def)
  moreover have "\<not> valid s1 \<Longrightarrow> \<exists>c\<in>set cs. \<not> any_variables c \<and> \<not> IsTrue st c"
    using Solver_loop_invalid [OF s1(2)] by (simp add: init_Solver_def)
  ultimately show ?thesis unfolding v by blast
qed

lemma new_Solver_valid:
  assumes "new_Solver st n cs me = Inr s" and "valid s" and "length me = n"
  shows "search_inv s" and "todo s = completions s n []"
    and "constraints s = filter any_variables cs"
    and "\<forall>c\<in>set cs. \<forall>x\<in>set (positions c). IsVariable x \<longrightarrow> nat (- x) < n"
proof -
  from assms(1) obtain s1 where s1: "0 < n" "Solver_loop cs (init_Solver st n me) = Inr s1"
    "s = (if valid s1 then GetOptions (s1\<lparr>working_constraints := constraints s1\<rparr>) else s1)"
    by (rule new_Solver_cases)
  have v1: "valid s1" using assms(2) by (simp add: s1(3) split: if_splits)
  define s2 where "s2 = s1\<lparr>working_constraints := constraints s1\<rparr>"
  have s: "s = GetOptions s2" using v1 by (simp add: s1(3) s2_def)
  note f = Solver_loop_frame [OF s1(2)]
  note vl = Solver_loop_valid [OF s1(2) v1]
  have c2: "constraints s2 = filter any_variables cs"
    using vl by (simp add: s2_def init_Solver_def)
  show "constraints s = filter any_variables cs" by (simp add: s c2)
  show range: "\<forall>c\<in>set cs. \<forall>x\<in>set (positions c). IsVariable x \<longrightarrow> nat (- x) < n"
    using vl by (simp add: init_Solver_def)
  have fields2: "n_variables s2 = n" "may_equal s2 = me" "current_index s2 = 0"
    "assignment s2 = replicate n 0" "states s2 = replicate n new_State"
    "length (var_to_constraints s2) = n" "working_constraints s2 = constraints s2"
    using f by (simp_all add: s2_def init_Solver_def)
  have vtc2: "set (var_to_constraints s2 ! k) =
      {i. i < length (constraints s2) \<and> mentions (constraints s2 ! i) k}" if "k < n" for k
    using vl that by (simp add: s2_def init_Solver_def)
  have r2: "\<forall>c\<in>set (constraints s2). \<forall>x\<in>set (positions c). IsVariable x \<longrightarrow> nat (- x) < n_variables s2"
    using range unfolding c2 fields2 by (meson filter_is_subset subsetD)
  have v2: "\<forall>k<n_variables s2. set (var_to_constraints s2 ! k) =
      {i. i < length (constraints s2) \<and> mentions (constraints s2 ! i) k}"
    using vtc2 unfolding fields2 by blast
  have "0 < n_variables s2" "length (var_to_constraints s2) = n_variables s2"
    "length (may_equal s2) = n_variables s2"
    using s1(1) assms(3) by (simp_all add: fields2)
  then have pok2: "problem_ok s2"
    unfolding problem_ok_def using r2 v2 by blast
  have w2: "working_ok s2"
    by (simp add: working_ok_def fields2 map_subst_upto_0)
  have "states s = (states s2)[nat (current_index s2) :=
           \<lparr>options = level_options s2 (take (nat (current_index s2)) (assignment s2)),
            options_it = level_options s2 (take (nat (current_index s2)) (assignment s2))\<rparr>]"
    unfolding s using s1(1) w2 by (intro GetOptions_states) (simp_all add: fields2 new_State_def)
  moreover have lo: "level_options s2 p = level_options s p" for p
    by (rule level_options_same_problem [symmetric]) (simp add: s)
  ultimately have S: "states s = (replicate n new_State)[0 :=
      \<lparr>options = level_options s [], options_it = level_options s []\<rparr>]"
    by (simp add: fields2)
  have S0: "states s ! 0 = \<lparr>options = level_options s [], options_it = level_options s []\<rparr>"
    using s1(1) by (simp add: S)
  have Sl: "states s ! l = new_State" if "0 < l" "l < n" for l
    using that by (simp add: S)
  show "search_inv s"
  proof (rule search_invI)
    show "problem_ok s" using pok2 by (rule problem_ok_same_problem [rotated]) (simp add: s)
    show "0 \<le> current_index s" by (simp add: s fields2)
    show "current_index s < int (n_variables s)" using s1(1) by (simp add: s fields2)
    show "length (assignment s) = n_variables s" by (simp add: s fields2)
    show "length (states s) = n_variables s" by (simp add: s fields2)
    show "working_ok s" using w2 working_ok_cong [of s s2] by (simp add: s)
    show "options (states s ! l) = level_options s (take l (assignment s))"
      if "l \<le> nat (current_index s)" for l
      using that S0 by (simp add: s fields2)
    show "\<exists>pre. options (states s ! l) = pre @ assignment s ! l # options_it (states s ! l)"
      if "l < nat (current_index s)" for l
      using that by (simp add: s fields2)
    show "\<exists>pre. options (states s ! nat (current_index s)) =
        pre @ options_it (states s ! nat (current_index s))"
      using S0 by (simp add: s fields2)
    show "options (states s ! l) = []"
      if "l < n_variables s" "var_to_constraints s ! l = []" for l
    proof (cases "l = 0")
      case True
      then show ?thesis using that(2) level_options_unconstrained [of s "[]"] by (simp add: S0)
    next
      case False
      then show ?thesis using that(1) Sl [of l] by (simp add: s fields2 new_State_def)
    qed
  qed
  have "n = Suc (n - 1)" using s1(1) by simp
  then have "completions s n [] =
      concat (map (\<lambda>v. completions s (n - 1) ([] @ [v])) (level_options s []))"
    by (metis completions.simps(2))
  moreover have "n_variables s = n" "current_index s = 0" by (simp_all add: s fields2)
  ultimately show "todo s = completions s n []"
    by (simp add: todo_unfold pending_def S0)
qed

section \<open>The solver: successive calls\<close>

lemma NextAssignment_invalid: "\<not> valid s \<Longrightarrow> NextAssignment s = Some ([], s)"
  by (simp add: NextAssignment_def)

lemma NextAssignments_invalid: "\<not> valid s \<Longrightarrow> NextAssignments m s = Some (replicate m [], s)"
  by (induction m) (simp_all add: NextAssignment_invalid)

lemma NextAssignment_correct:
  assumes "search_inv s" and "valid s"
  shows "\<exists>r s'. NextAssignment s = Some (r, s') \<and> same_problem s s' \<and>
          ((r = [] \<and> todo s = [] \<and> \<not> valid s') \<or>
           (length r = n_variables s \<and> todo s = r # todo s' \<and> search_inv s' \<and> valid s'))"
proof -
  have "0 < n_variables s" using search_invD(1) [OF assms(1)] by (simp add: problem_ok_def)
  then have "NextAssignment s = NextAssignment_loop s"
    using assms(2) by (simp add: NextAssignment_def)
  then show ?thesis using loop_correct [OF assms(1)] assms(2) by auto
qed

lemma take_append_replicate:
  "take m (xs @ replicate (Suc m) x) = take m (xs @ replicate m x)"
proof -
  have "take (m - length xs) (replicate (Suc m) x) = take (m - length xs) (replicate m x)"
    unfolding take_replicate by (simp add: min_def)
  then show ?thesis unfolding take_append by simp
qed

lemma NextAssignments_correct:
  assumes "search_inv s" and "valid s"
  shows "\<exists>s'. NextAssignments m s = Some (take m (todo s @ replicate m []), s') \<and> same_problem s s'"
  using assms
proof (induction m arbitrary: s)
  case 0
  then show ?case by simp
next
  case (Suc m)
  from NextAssignment_correct [OF Suc.prems] obtain r s1 where
    r: "NextAssignment s = Some (r, s1)" "same_problem s s1"
    "(r = [] \<and> todo s = [] \<and> \<not> valid s1) \<or>
     (length r = n_variables s \<and> todo s = r # todo s1 \<and> search_inv s1 \<and> valid s1)"
    by blast
  from r(3) show ?case
  proof
    assume a: "r = [] \<and> todo s = [] \<and> \<not> valid s1"
    then have "NextAssignments m s1 = Some (replicate m [], s1)"
      by (simp add: NextAssignments_invalid)
    moreover have "take (Suc m) (todo s @ replicate (Suc m) []) = [] # replicate m []"
      using a by simp
    ultimately show ?thesis using r(1,2) a by simp
  next
    assume a: "length r = n_variables s \<and> todo s = r # todo s1 \<and> search_inv s1 \<and> valid s1"
    then obtain s' where s': "NextAssignments m s1 = Some (take m (todo s1 @ replicate m []), s')"
      "same_problem s1 s'"
      using Suc.IH [of s1] by blast
    have sp: "same_problem s s'" using r(2) s'(2) by (rule same_problem_trans)
    have "take (Suc m) (todo s @ replicate (Suc m) []) =
        r # take m (todo s1 @ replicate (Suc m) [])"
      using a by (simp del: replicate.simps)
    also have "\<dots> = r # take m (todo s1 @ replicate m [])"
      by (simp only: take_append_replicate)
    finally have "take (Suc m) (todo s @ replicate (Suc m) []) =
        r # take m (todo s1 @ replicate m [])" .
    moreover have "NextAssignments (Suc m) s = Some (r # take m (todo s1 @ replicate m []), s')"
      using r(1) s'(1) by simp
    ultimately show ?thesis using sp by simp
  qed
qed

section \<open>The enumeration: which assignments, and each once\<close>

lemma completions_iff:
  "A \<in> set (completions s d p) \<longleftrightarrow>
   length A = length p + d \<and> take (length p) A = p \<and>
   (\<forall>l. length p \<le> l \<and> l < length p + d \<longrightarrow> A ! l \<in> set (level_options s (take l A)))"
proof (induction d arbitrary: p)
  case 0
  then show ?case by auto
next
  case (Suc d)
  let ?k = "length p"
  have "A \<in> set (completions s (Suc d) p) \<longleftrightarrow>
      (\<exists>v\<in>set (level_options s p). A \<in> set (completions s d (p @ [v])))"
    by auto
  also have "\<dots> \<longleftrightarrow> (\<exists>v\<in>set (level_options s p).
      length A = Suc ?k + d \<and> take (Suc ?k) A = p @ [v] \<and>
      (\<forall>l. Suc ?k \<le> l \<and> l < Suc ?k + d \<longrightarrow> A ! l \<in> set (level_options s (take l A))))"
    by (simp add: Suc.IH)
  also have "\<dots> \<longleftrightarrow> length A = ?k + Suc d \<and> take ?k A = p \<and>
      (\<forall>l. ?k \<le> l \<and> l < ?k + Suc d \<longrightarrow> A ! l \<in> set (level_options s (take l A)))"
    (is "?L \<longleftrightarrow> ?R")
  proof
    assume ?L
    then obtain v where v: "v \<in> set (level_options s p)" "length A = Suc ?k + d"
      "take (Suc ?k) A = p @ [v]"
      "\<forall>l. Suc ?k \<le> l \<and> l < Suc ?k + d \<longrightarrow> A ! l \<in> set (level_options s (take l A))"
      by blast
    have kA: "?k < length A" using v(2) by simp
    from v(3) have "take ?k A @ [A ! ?k] = p @ [v]"
      using kA by (simp add: take_Suc_conv_app_nth)
    then have t: "take ?k A = p" "A ! ?k = v" by simp_all
    have "A ! l \<in> set (level_options s (take l A))" if "?k \<le> l" "l < ?k + Suc d" for l
    proof (cases "l = ?k")
      case True
      then show ?thesis using v(1) t by simp
    next
      case False
      then show ?thesis using that v(4) by simp
    qed
    then show ?R using v(2) t(1) by simp
  next
    assume R: ?R
    then have kA: "?k < length A" by simp
    have "take (Suc ?k) A = p @ [A ! ?k]"
      using kA R by (simp add: take_Suc_conv_app_nth)
    moreover have "A ! ?k \<in> set (level_options s (take ?k A))"
      using R [THEN conjunct2, THEN conjunct2, rule_format, of ?k] by simp
    then have "A ! ?k \<in> set (level_options s p)" using R by simp
    moreover have "length A = Suc ?k + d" using R by simp
    moreover have "\<forall>l. Suc ?k \<le> l \<and> l < Suc ?k + d \<longrightarrow> A ! l \<in> set (level_options s (take l A))"
      using R by simp
    ultimately show ?L by blast
  qed
  finally show ?case .
qed

lemma distinct_concat_map:
  assumes "distinct vs" and "\<And>v. v \<in> set vs \<Longrightarrow> distinct (f v)"
    and "\<And>v w. v \<in> set vs \<Longrightarrow> w \<in> set vs \<Longrightarrow> v \<noteq> w \<Longrightarrow> set (f v) \<inter> set (f w) = {}"
  shows "distinct (concat (map f vs))"
  using assms by (induction vs) auto

lemma distinct_completions: "distinct (completions s d p)"
proof (induction d arbitrary: p)
  case 0
  then show ?case by simp
next
  case (Suc d)
  have "set (completions s d (p @ [v])) \<inter> set (completions s d (p @ [w])) = {}" if "v \<noteq> w" for v w
  proof -
    have t: "take (Suc (length p)) A = p @ [v]" if "A \<in> set (completions s d (p @ [v]))" for A v
      using that by (simp add: completions_iff)
    show ?thesis
    proof (rule ccontr)
      assume "set (completions s d (p @ [v])) \<inter> set (completions s d (p @ [w])) \<noteq> {}"
      then obtain A where "A \<in> set (completions s d (p @ [v]))" "A \<in> set (completions s d (p @ [w]))"
        by blast
      then have "p @ [v] = p @ [w]" using t by metis
      then show False using that by simp
    qed
  qed
  then show ?case using Suc distinct_level_options by (simp add: distinct_concat_map)
qed

lemma completions_unconstrained:
  assumes "length p \<le> k" and "k < length p + d" and "var_to_constraints s ! k = []"
  shows "completions s d p = []"
proof -
  have "A \<notin> set (completions s d p)" for A
  proof
    assume "A \<in> set (completions s d p)"
    then have "length A = length p + d" "A ! k \<in> set (level_options s (take k A))"
      using assms(1,2) by (simp_all add: completions_iff)
    moreover have "length (take k A) = k" using calculation(1) assms(2) by simp
    ultimately show False using level_options_unconstrained [of s "take k A"] assms(3) by simp
  qed
  then show ?thesis by (metis last_in_set)
qed

section \<open>The candidates of a level, in terms of the facts\<close>

subsection \<open>Triplets, position by position\<close>

lemma all_less_3: "(\<forall>j<3. P j) \<longleftrightarrow> P 0 \<and> P (Suc 0) \<and> P (Suc (Suc 0))"
  by (auto simp: numeral_3_eq_3 less_Suc_eq)

lemma ex_less_3: "(\<exists>j<3. P j) \<longleftrightarrow> P 0 \<or> P (Suc 0) \<or> P (Suc (Suc 0))"
  by (auto simp: numeral_3_eq_3 less_Suc_eq)

lemma length_positions [simp]: "length (positions c) = 3"
  by (cases c) simp

lemma positions_map3 [simp]: "positions (map3 f c) = map f (positions c)"
  by (cases c) simp

lemma positions_inject: "positions c = positions c' \<longleftrightarrow> c = c'"
  by (cases c; cases c') simp

lemma triplet_eqI: "(\<And>j. j < 3 \<Longrightarrow> positions c ! j = positions c' ! j) \<Longrightarrow> c = c'"
  unfolding positions_inject [symmetric] by (rule nth_equalityI) simp_all

lemma matches_iff: "matches p f \<longleftrightarrow> (\<forall>j<3. positions p ! j = 0 \<or> positions p ! j = positions f ! j)"
  by (cases p; cases f) (simp add: matches_def all_less_3)

lemma is_fact_iff: "is_fact f \<longleftrightarrow> (\<forall>j<3. 0 < positions f ! j)"
  by (cases f) (simp add: is_fact_def all_less_3)

lemma mentions_iff: "mentions c k \<longleftrightarrow> (\<exists>j<3. positions c ! j = - int k)"
  by (cases c) (auto simp: mentions_def ex_less_3)

lemma any_variables_iff: "any_variables c \<longleftrightarrow> (\<exists>j<3. IsVariable (positions c ! j))"
  by (cases c) (auto simp: any_variables_def ex_less_3)

lemma choice_of_sound:
  assumes "is_fact t" and "0 < choice_of h t" and "j < 3" and "positions h ! j"
  shows "positions t ! j = choice_of h t"
proof -
  obtain h0 h1 h2 where h: "h = (h0, h1, h2)" by (cases h)
  obtain a b c where t: "t = (a, b, c)" by (cases t)
  have pos: "0 < a" "0 < b" "0 < c" using assms(1) by (simp_all add: t is_fact_def)
  have j: "j = 0 \<or> j = Suc 0 \<or> j = Suc (Suc 0)" using assms(3) by auto
  show ?thesis
    using assms(2,4) pos j unfolding h t choice_of_def
    by (cases h0; cases h1; cases h2) (auto split: if_splits)
qed

lemma choice_of_complete:
  assumes "j0 < 3" and "positions h ! j0" and "0 < v"
    and "\<forall>j<3. positions h ! j \<longrightarrow> positions t ! j = v"
  shows "choice_of h t = v"
proof -
  obtain h0 h1 h2 where h: "h = (h0, h1, h2)" by (cases h)
  obtain a b c where t: "t = (a, b, c)" by (cases t)
  have j: "j0 = 0 \<or> j0 = Suc 0 \<or> j0 = Suc (Suc 0)" using assms(1) by auto
  show ?thesis
    using assms(2,3,4) j unfolding h t choice_of_def all_less_3
    by (cases h0; cases h1; cases h2) auto
qed

subsection \<open>The pattern and the holes of a working constraint\<close>

lemma positions_subst_upto:
  "j < 3 \<Longrightarrow> positions (subst_upto p k c) ! j = subst_pos p k (positions c ! j)"
  by (simp add: subst_upto_def)

lemma positions_substitute:
  "j < 3 \<Longrightarrow> positions (substitute B c) ! j =
     (if IsVariable (positions c ! j) then B ! nat (- (positions c ! j)) else positions c ! j)"
  by (simp add: substitute_def)

lemma positions_emptied:
  "j < 3 \<Longrightarrow> positions (emptied w) ! j =
     (if IsVariable (positions w ! j) then 0 else positions w ! j)"
  by (simp add: emptied_def)

lemma positions_hole_is_var:
  "j < 3 \<Longrightarrow> positions (hole_is_var var w) ! j \<longleftrightarrow> positions w ! j = var"
  by (cases w) (auto simp: hole_is_var_def all_less_3 numeral_3_eq_3 less_Suc_eq)

text \<open>The four kinds of position of a constraint at level \<open>k\<close>: a node, a variable
  already assigned, the variable of the level, a later variable.\<close>

lemma position_cases:
  obtains (node) "0 < x"
  | (assigned) "IsVariable x" "nat (- x) < k"
  | (current) "x = - int k"
  | (later) "IsVariable x" "k < nat (- x)"
proof -
  have "0 < x \<or> (IsVariable x \<and> nat (- x) < k) \<or> x = - int k \<or> (IsVariable x \<and> k < nat (- x))"
    by (auto simp: IsVariable_def)
  then show ?thesis using that by blast
qed

lemma working_position:
  assumes "\<forall>l<k. 0 < p ! l"
  shows "0 < x \<Longrightarrow> subst_pos p k x = x"
    and "IsVariable x \<Longrightarrow> nat (- x) < k \<Longrightarrow> subst_pos p k x = p ! nat (- x) \<and> 0 < subst_pos p k x"
    and "subst_pos p k (- int k) = - int k"
    and "IsVariable x \<Longrightarrow> k < nat (- x) \<Longrightarrow> subst_pos p k x = x \<and> x \<noteq> - int k"
  using assms by (auto simp: subst_pos_def IsVariable_def)

lemma local_sound:
  assumes pos: "\<forall>l<k. 0 < p ! l"
    and t: "is_fact t" "matches (emptied (subst_upto p k c)) t"
    and ch: "0 < choice_of (hole_is_var (- int k) (subst_upto p k c)) t"
    and top: "\<forall>x\<in>set (positions c). IsVariable x \<longrightarrow> nat (- x) \<le> k"
    and B: "\<forall>l<k. B ! l = p ! l" "B ! k = choice_of (hole_is_var (- int k) (subst_upto p k c)) t"
  shows "substitute B c = t"
proof (rule triplet_eqI)
  fix j :: nat assume j: "j < 3"
  define x where "x = positions c ! j"
  have xin: "x \<in> set (positions c)" using j by (simp add: x_def)
  have m: "positions (emptied (subst_upto p k c)) ! j = 0 \<or>
      positions (emptied (subst_upto p k c)) ! j = positions t ! j"
    using t(2) j by (simp add: matches_iff)
  have e: "positions (emptied (subst_upto p k c)) ! j =
      (if IsVariable (subst_pos p k x) then 0 else subst_pos p k x)"
    using j by (simp add: positions_emptied positions_subst_upto x_def)
  have h: "positions (hole_is_var (- int k) (subst_upto p k c)) ! j \<longleftrightarrow> subst_pos p k x = - int k"
    using j by (simp add: positions_hole_is_var positions_subst_upto x_def)
  have s: "positions (substitute B c) ! j = (if IsVariable x then B ! nat (- x) else x)"
    using j by (simp add: positions_substitute x_def)
  show "positions (substitute B c) ! j = positions t ! j"
  proof (cases rule: position_cases [where x = x and k = k])
    case node
    then show ?thesis using m e s working_position(1) [OF pos node] by (simp add: IsVariable_def)
  next
    case assigned
    then show ?thesis using m e s working_position(2) [OF pos assigned] B(1)
      by (simp add: IsVariable_def)
  next
    case current
    then have "positions t ! j = choice_of (hole_is_var (- int k) (subst_upto p k c)) t"
      using choice_of_sound [OF t(1) ch j] h working_position(3) [OF pos] by simp
    then show ?thesis using s current B(2) by simp
  next
    case later
    then show ?thesis using top xin by auto
  qed
qed

lemma local_complete:
  assumes pos: "\<forall>l<k. 0 < p ! l"
    and B: "\<forall>l<k. B ! l = p ! l" "0 < B ! k"
    and m: "mentions c k"
  shows "matches (emptied (subst_upto p k c)) (substitute B c)"
    and "choice_of (hole_is_var (- int k) (subst_upto p k c)) (substitute B c) = B ! k"
proof -
  have *: "(positions (emptied (subst_upto p k c)) ! j = 0 \<or>
      positions (emptied (subst_upto p k c)) ! j = positions (substitute B c) ! j) \<and>
     (positions (hole_is_var (- int k) (subst_upto p k c)) ! j \<longleftrightarrow> positions c ! j = - int k) \<and>
     (positions c ! j = - int k \<longrightarrow> positions (substitute B c) ! j = B ! k)"
    if j: "j < 3" for j
  proof -
    define x where "x = positions c ! j"
    have e: "positions (emptied (subst_upto p k c)) ! j =
        (if IsVariable (subst_pos p k x) then 0 else subst_pos p k x)"
      using j by (simp add: positions_emptied positions_subst_upto x_def)
    have h: "positions (hole_is_var (- int k) (subst_upto p k c)) ! j \<longleftrightarrow> subst_pos p k x = - int k"
      using j by (simp add: positions_hole_is_var positions_subst_upto x_def)
    have s: "positions (substitute B c) ! j = (if IsVariable x then B ! nat (- x) else x)"
      using j by (simp add: positions_substitute x_def)
    have xs: "positions c ! j = x" by (simp add: x_def)
    show ?thesis
    proof (cases rule: position_cases [where x = x and k = k])
      case node
      then show ?thesis using e h s working_position(1) [OF pos node] by (simp add: IsVariable_def xs)
    next
      case assigned
      then show ?thesis using e h s working_position(2) [OF pos assigned] B(1)
        by (auto simp: IsVariable_def xs)
    next
      case current
      then show ?thesis using e h s working_position(3) [OF pos] by (simp add: xs)
    next
      case later
      then show ?thesis using e h s working_position(4) [OF pos later] by (simp add: xs)
    qed
  qed
  show "matches (emptied (subst_upto p k c)) (substitute B c)"
    unfolding matches_iff using * by blast
  obtain j0 where j0: "j0 < 3" "positions c ! j0 = - int k"
    using m by (auto simp: mentions_iff)
  show "choice_of (hole_is_var (- int k) (subst_upto p k c)) (substitute B c) = B ! k"
  proof (rule choice_of_complete [OF j0(1) _ B(2)])
    show "positions (hole_is_var (- int k) (subst_upto p k c)) ! j0" using * j0 by blast
    show "\<forall>j<3. positions (hole_is_var (- int k) (subst_upto p k c)) ! j \<longrightarrow>
        positions (substitute B c) ! j = B ! k"
      using * by blast
  qed
qed

subsection \<open>The candidates of a level\<close>

lemma level_options_iff:
  assumes "problem_ok s" and "length p < n_variables s"
  shows "v \<in> set (level_options s p) \<longleftrightarrow>
     var_to_constraints s ! length p \<noteq> [] \<and>
     (\<forall>i<length (constraints s). mentions (constraints s ! i) (length p) \<longrightarrow>
        0 < v \<and> (\<exists>t\<in>set (Lookup (structure_ref s)
                         (emptied (subst_upto p (length p) (constraints s ! i)))).
                  choice_of (hole_is_var (- int (length p))
                     (subst_upto p (length p) (constraints s ! i))) t = v)) \<and>
     (\<forall>j<length p. j \<notin> may_equal s ! length p \<longrightarrow> p ! j \<noteq> v)"
proof -
  define k where "k = length p"
  define wc where "wc = map (subst_upto p k) (constraints s)"
  define loc where "loc = (\<lambda>i. set (local_options (structure_ref s) (emptied (wc ! i))
      (hole_is_var (- int k) (wc ! i)) False []))"
  define cl where "cl = constraint_loop (structure_ref s) wc (- int k) (var_to_constraints s ! k) False []"
  have d: "distinct cl" by (simp add: cl_def distinct_constraint_loop)
  have lo: "set (level_options s p) = set cl - {p ! j | j. j < k \<and> j \<notin> may_equal s ! k}"
    using set_inequality_filter [OF d]
    by (simp add: level_options_def Let_def cl_def wc_def k_def)
  have vtc: "i \<in> set (var_to_constraints s ! k) \<longleftrightarrow>
      i < length (constraints s) \<and> mentions (constraints s ! i) k" for i
    using assms unfolding problem_ok_def k_def by blast
  have loc: "v \<in> loc i \<longleftrightarrow> 0 < v \<and>
      (\<exists>t\<in>set (Lookup (structure_ref s) (emptied (subst_upto p k (constraints s ! i)))).
         choice_of (hole_is_var (- int k) (subst_upto p k (constraints s ! i))) t = v)"
    if "i < length (constraints s)" for i
    using that by (simp add: loc_def set_local_options wc_def)
  have cl: "v \<in> set cl \<longleftrightarrow> var_to_constraints s ! k \<noteq> [] \<and>
      (\<forall>i\<in>set (var_to_constraints s ! k). v \<in> loc i)"
  proof (cases "var_to_constraints s ! k = []")
    case True
    then show ?thesis by (simp add: cl_def)
  next
    case False
    then show ?thesis
      using set_constraint_loop_False [OF False, of "structure_ref s" wc "- int k" "[]"]
      by (simp add: cl_def loc_def)
  qed
  have "v \<in> set (level_options s p) \<longleftrightarrow>
      (var_to_constraints s ! k \<noteq> [] \<and> (\<forall>i\<in>set (var_to_constraints s ! k). v \<in> loc i)) \<and>
      (\<forall>j<k. j \<notin> may_equal s ! k \<longrightarrow> p ! j \<noteq> v)"
    unfolding lo using cl by auto
  also have "(\<forall>i\<in>set (var_to_constraints s ! k). v \<in> loc i) \<longleftrightarrow>
      (\<forall>i<length (constraints s). mentions (constraints s ! i) k \<longrightarrow> 0 < v \<and>
      (\<exists>t\<in>set (Lookup (structure_ref s) (emptied (subst_upto p k (constraints s ! i)))).
         choice_of (hole_is_var (- int k) (subst_upto p k (constraints s ! i))) t = v))"
    using vtc loc by blast
  finally show ?thesis unfolding k_def by blast
qed

section \<open>The enumeration and the satisfying assignments\<close>

lemma top_variable:
  assumes "any_variables c"
  obtains k where "mentions c k" and "\<forall>x\<in>set (positions c). IsVariable x \<longrightarrow> nat (- x) \<le> k"
proof -
  define S where "S = (\<lambda>x. nat (- x)) ` {x \<in> set (positions c). IsVariable x}"
  have fin: "finite S" by (simp add: S_def)
  have ne: "S \<noteq> {}" using assms by (auto simp: S_def any_variables_def list_ex_iff)
  have "Max S \<in> S" using fin ne by (rule Max_in)
  then obtain x where x: "x \<in> set (positions c)" "IsVariable x" "nat (- x) = Max S"
    by (auto simp: S_def)
  then have "x = - int (Max S)" using var_index [of x "Max S"] by simp
  then have "mentions c (Max S)" using x(1) by (simp add: mentions_def)
  moreover have "\<forall>x\<in>set (positions c). IsVariable x \<longrightarrow> nat (- x) \<le> Max S"
    using fin by (auto simp: S_def intro!: Max_ge)
  ultimately show ?thesis using that by blast
qed

lemma substitute_ground: "\<not> any_variables c \<Longrightarrow> substitute A c = c"
  by (rule triplet_eqI) (auto simp: positions_substitute any_variables_iff)

lemma ground_is_fact: "\<not> any_variables c \<Longrightarrow> is_fact c"
  unfolding is_fact_iff any_variables_iff by (auto simp: IsVariable_def not_le)

lemma completions_sound:
  assumes "bucket_inv F st" and "new_Solver st n cs me = Inr s" and "valid s" and "length me = n"
    and "A \<in> set (completions s n [])"
  shows "satisfying st n cs me A"
proof -
  note fr = new_Solver_frame [OF assms(2)]
  note va = new_Solver_valid [OF assms(2,3,4)]
  have pok: "problem_ok s" using va(1) by (rule search_invD(1))
  have len: "length A = n" and lo: "\<And>l. l < n \<Longrightarrow> A ! l \<in> set (level_options s (take l A))"
    using assms(5) by (simp_all add: completions_iff)
  have pos: "\<And>l. l < n \<Longrightarrow> 0 < A ! l" using lo level_options_pos by blast
  have "is_fact (substitute A c) \<and> IsTrue st (substitute A c)" if c: "c \<in> set cs" for c
  proof (cases "any_variables c")
    case False
    then show ?thesis
      using new_Solver_valid_iff [OF assms(2)] assms(3) c
      by (simp add: substitute_ground ground_is_fact)
  next
    case True
    then have "c \<in> set (constraints s)" using c by (simp add: va(3))
    then obtain i where i: "i < length (constraints s)" "constraints s ! i = c"
      by (auto simp: in_set_conv_nth)
    from True obtain k where k: "mentions c k"
      "\<forall>x\<in>set (positions c). IsVariable x \<longrightarrow> nat (- x) \<le> k"
      by (rule top_variable)
    have kn: "k < n" using va(4) c k(1) by (force simp: mentions_def)
    have lk: "length (take k A) = k" using kn len by simp
    have "A ! k \<in> set (level_options s (take k A))" using lo kn by simp
    then obtain t where t: "t \<in> set (Lookup st (emptied (subst_upto (take k A) k c)))"
      "choice_of (hole_is_var (- int k) (subst_upto (take k A) k c)) t = A ! k"
      using level_options_iff [OF pok, of "take k A" "A ! k"] kn i k(1)
      unfolding lk fr by blast
    have tF: "t \<in> F" "matches (emptied (subst_upto (take k A) k c)) t"
      using t(1) bucket_inv_set [OF assms(1)] by auto
    have tf: "is_fact t" using tF(1) assms(1) by (rule bucket_inv_fact [rotated])
    have "substitute A c = t"
    proof (rule local_sound [where p = "take k A" and k = k])
      show "\<forall>l<k. 0 < take k A ! l" using pos kn by simp
      show "0 < choice_of (hole_is_var (- int k) (subst_upto (take k A) k c)) t"
        using t(2) pos kn by simp
      show "A ! k = choice_of (hole_is_var (- int k) (subst_upto (take k A) k c)) t"
        using t(2) by simp
    qed (use tf tF(2) k(2) in simp_all)
    then show ?thesis using tf tF(1) bucket_inv_IsTrue [OF assms(1) tf] by simp
  qed
  then have 1: "all_constraints_facts st cs A" by (simp add: all_constraints_facts_def)
  have "A ! j \<noteq> A ! k" if "k < length A" "j < k" "j \<notin> me ! k" for j k
  proof -
    have kn: "k < n" using that(1) len by simp
    have lk: "length (take k A) = k" using kn len by simp
    have "A ! k \<in> set (level_options s (take k A))" using lo kn by simp
    then have "\<forall>j<k. j \<notin> may_equal s ! k \<longrightarrow> take k A ! j \<noteq> A ! k"
      using level_options_iff [OF pok, of "take k A" "A ! k"] kn unfolding lk fr by blast
    then show ?thesis using that by (simp add: fr)
  qed
  then have 2: "inequalities_hold me A" by (simp add: inequalities_hold_def)
  show ?thesis using len pos 1 2 by (simp add: satisfying_def)
qed

lemma completions_complete:
  assumes "bucket_inv F st" and "new_Solver st n cs me = Inr s" and "valid s" and "length me = n"
    and "satisfying st n cs me A"
    and "\<forall>k<n. \<exists>c\<in>set cs. mentions c k"
  shows "A \<in> set (completions s n [])"
proof -
  note fr = new_Solver_frame [OF assms(2)]
  note va = new_Solver_valid [OF assms(2,3,4)]
  have pok: "problem_ok s" using va(1) by (rule search_invD(1))
  have len: "length A = n" and pos: "\<And>l. l < n \<Longrightarrow> 0 < A ! l"
    and fa: "\<And>c. c \<in> set cs \<Longrightarrow> is_fact (substitute A c) \<and> IsTrue st (substitute A c)"
    and ne: "\<And>k j. k < n \<Longrightarrow> j < k \<Longrightarrow> j \<notin> me ! k \<Longrightarrow> A ! j \<noteq> A ! k"
    using assms(5) by (simp_all add: satisfying_def all_constraints_facts_def inequalities_hold_def)
  have "A ! k \<in> set (level_options s (take k A))" if kn: "k < n" for k
  proof -
    have lk: "length (take k A) = k" using kn len by simp
    obtain c where c: "c \<in> set cs" "mentions c k" using assms(6) kn by blast
    then have "c \<in> set (constraints s)" using mentions_IsVariable by (simp add: va(3))
    then obtain i where i: "i < length (constraints s)" "constraints s ! i = c"
      by (auto simp: in_set_conv_nth)
    then have "i \<in> set (var_to_constraints s ! k)"
      using problem_ok_vtc [OF pok, of k i] kn c(2) by (simp add: fr)
    then have 1: "var_to_constraints s ! k \<noteq> []" by auto
    have 2: "0 < A ! k \<and> (\<exists>t\<in>set (Lookup (structure_ref s)
                         (emptied (subst_upto (take k A) k (constraints s ! i)))).
                  choice_of (hole_is_var (- int k)
                     (subst_upto (take k A) k (constraints s ! i))) t = A ! k)"
      if i: "i < length (constraints s)" and m: "mentions (constraints s ! i) k" for i
    proof -
      define c where "c = constraints s ! i"
      have "c \<in> set (constraints s)" using i by (simp add: c_def)
      then have "c \<in> set cs" by (simp add: va(3))
      then have f: "is_fact (substitute A c)" "IsTrue st (substitute A c)" using fa by simp_all
      then have "substitute A c \<in> F" using bucket_inv_IsTrue [OF assms(1)] by simp
      moreover have lc: "matches (emptied (subst_upto (take k A) k c)) (substitute A c)"
        "choice_of (hole_is_var (- int k) (subst_upto (take k A) k c)) (substitute A c) = A ! k"
        using pos kn m by (intro local_complete; simp add: c_def)+
      ultimately have "substitute A c \<in> set (Lookup st (emptied (subst_upto (take k A) k c)))"
        using bucket_inv_set [OF assms(1)] by simp
      then show ?thesis using lc(2) pos kn unfolding c_def fr by blast
    qed
    have 3: "\<forall>j<k. j \<notin> may_equal s ! k \<longrightarrow> take k A ! j \<noteq> A ! k"
      using ne kn by (simp add: fr)
    show ?thesis
      using level_options_iff [OF pok, of "take k A" "A ! k"] kn 1 2 3 unfolding lk fr by blast
  qed
  then show ?thesis using len by (simp add: completions_iff)
qed

section \<open>The example instances\<close>

lemma projr_eq: "\<not> isl x \<Longrightarrow> x = Inr (projr x)"
  by (cases x) simp_all

lemma s1_facts_built: "apply_fact_ops empty_Structure [Add (1, 1, 1)] = Inr s1_facts"
  unfolding s1_facts_def by (rule projr_eq) code_simp

lemma pair_facts_built: "apply_fact_ops empty_Structure [Add (1, 1, 2)] = Inr pair_facts"
  unfolding pair_facts_def by (rule projr_eq) code_simp

lemma s1_solver_built: "new_Solver s1_facts 1 [(0, 0, 0)] [{}] = Inr s1_solver"
  unfolding s1_solver_def by (rule projr_eq) code_simp

lemma s3_solver_built: "new_Solver s1_facts 1 [(2, 2, 2), (0, 0, 0)] [{}] = Inr s3_solver"
  unfolding s3_solver_def by (rule projr_eq) code_simp

lemma pair_solver_built: "new_Solver pair_facts 2 [(0, 0, - 1)] [{}, {}] = Inr pair_solver"
  unfolding pair_solver_def by (rule projr_eq) code_simp

lemma free_variable_solver_built: "new_Solver s1_facts 2 [(0, 0, 0)] [{}, {}] = Inr free_variable_solver"
  unfolding free_variable_solver_def by (rule projr_eq) code_simp

lemma self_equal_solver_built: "new_Solver s1_facts 1 [(0, 0, 0)] [{0}] = Inr self_equal_solver"
  unfolding self_equal_solver_def by (rule projr_eq) code_simp

section \<open>AddFact on a triplet that is not a fact\<close>

text \<open>
  Claim C10, as amended. \<^verbatim>\<open>AddFact\<close> does not check that its argument is positive;
  its only check is \<^verbatim>\<open>assert(!IsTrue(fact))\<close>. For a triplet \<open>f\<close> with a zero or
  negative position and any FactIndex \<open>s\<close>:

  \<^item> when \<^verbatim>\<open>IsTrue\<close> is false for \<open>f\<close>, \<^verbatim>\<open>AddFact\<close> does not abort; \<open>f\<close> is put into
    the bucket of each of its eight keys and into no other bucket, and \<^verbatim>\<open>IsTrue\<close> then
    returns true for it;
  \<^item> when \<^verbatim>\<open>IsTrue\<close> is true for \<open>f\<close>, \<^verbatim>\<open>AddFact\<close> aborts;
  \<^item> when \<open>s\<close> was built from the empty FactIndex by adding and removing positive
    facts, \<open>f\<close> is not among the facts present (it was never added), and \<^verbatim>\<open>IsTrue\<close> is
    true for \<open>f\<close> exactly when some fact present agrees with \<open>f\<close> at every position of
    \<open>f\<close> that is not \<open>0\<close>. So \<^verbatim>\<open>AddFact\<close> aborts on a triplet that is not present
    when it is the lookup key of a fact present (\<open>(0, 0, 0)\<close> on every FactIndex that
    is not empty), and inserts every triplet with a negative position and every triplet
    with a zero position that matches no fact present.
\<close>

theorem AddFact_no_positivity_check:
  assumes "\<not> is_fact f"
  shows "(\<not> IsTrue s f \<longrightarrow>
            (\<exists>s'. AddFact s f = Inr s' \<and> IsTrue s' f
               \<and> (\<forall>i<8. f \<in> set (Lookup s' (mask_key i f)))
               \<and> (\<forall>key. set (Lookup s' key) =
                     set (Lookup s key) \<union> (if matches key f then {f} else {}))))
       \<and> (IsTrue s f \<longrightarrow> AddFact s f = Inl AssertionFailed)
       \<and> (apply_fact_ops empty_Structure ops = Inr s \<and> (\<forall>x\<in>set ops. is_fact (op_fact x)) \<longrightarrow>
            f \<notin> present_after {} ops
            \<and> (IsTrue s f \<longleftrightarrow> (\<exists>g\<in>present_after {} ops. matches f g))
            \<and> (AddFact s f = Inl AssertionFailed \<longleftrightarrow> (\<exists>g\<in>present_after {} ops. matches f g)))"
proof (intro conjI impI)
  let ?s' = "foldl (\<lambda>s' i. push_back_fact f s' (mask_key i f)) s [0..<8]"
  assume n: "\<not> IsTrue s f"
  have a: "AddFact s f = Inr ?s'"
    using n by (simp add: AddFact_def)
  have c: "set (Lookup ?s' key) = set (Lookup s key) \<union> (if matches key f then {f} else {})" for key
  proof -
    have "(\<exists>i\<in>set [0..<8]. mask_key i f = key) \<longleftrightarrow> matches key f"
      using mask_key_matches [of f key] by auto
    then show ?thesis unfolding set_Lookup_AddFact_loop by simp
  qed
  have b: "\<forall>i<8. f \<in> set (Lookup ?s' (mask_key i f))"
    by (simp add: c matches_mask_key)
  then have "f \<in> set (Lookup ?s' (mask_key 7 f))" by simp
  then have "IsTrue ?s' f"
    unfolding IsTrue_Lookup mask_key_7 by auto
  with a b c show "\<exists>s'. AddFact s f = Inr s' \<and> IsTrue s' f
               \<and> (\<forall>i<8. f \<in> set (Lookup s' (mask_key i f)))
               \<and> (\<forall>key. set (Lookup s' key) =
                     set (Lookup s key) \<union> (if matches key f then {f} else {}))"
    by blast
next
  assume "IsTrue s f"
  then show "AddFact s f = Inl AssertionFailed" by (simp add: AddFact_def)
next
  assume b: "apply_fact_ops empty_Structure ops = Inr s \<and> (\<forall>x\<in>set ops. is_fact (op_fact x))"
  then have inv: "bucket_inv (present_after {} ops) s"
    using bucket_inv_ops [OF bucket_inv_empty] by blast
  show "f \<notin> present_after {} ops"
    using bucket_inv_fact [OF inv, of f] assms by blast
next
  assume b: "apply_fact_ops empty_Structure ops = Inr s \<and> (\<forall>x\<in>set ops. is_fact (op_fact x))"
  then have inv: "bucket_inv (present_after {} ops) s"
    using bucket_inv_ops [OF bucket_inv_empty] by blast
  show "IsTrue s f \<longleftrightarrow> (\<exists>g\<in>present_after {} ops. matches f g)"
    by (rule bucket_inv_IsTrue_key [OF inv])
next
  assume b: "apply_fact_ops empty_Structure ops = Inr s \<and> (\<forall>x\<in>set ops. is_fact (op_fact x))"
  then have inv: "bucket_inv (present_after {} ops) s"
    using bucket_inv_ops [OF bucket_inv_empty] by blast
  have "AddFact s f = Inl AssertionFailed \<longleftrightarrow> IsTrue s f"
    by (simp add: AddFact_def)
  then show "AddFact s f = Inl AssertionFailed \<longleftrightarrow> (\<exists>g\<in>present_after {} ops. matches f g)"
    unfolding bucket_inv_IsTrue_key [OF inv] .
qed

text \<open>On the FactIndex holding the single fact \<open>(1, 1, 1)\<close>: the triplet \<open>(0, - 1, 2)\<close>
  is inserted, and so is \<open>(0, 2, 2)\<close>, which matches no fact present; the triplet
  \<open>(0, 1, 1)\<close> is refused.\<close>

theorem AddFact_no_positivity_check_witness:
  "apply_fact_ops empty_Structure [Add (1, 1, 1)] = Inr s1_facts
   \<and> is_fact (1, 1, 1) \<and> present_after {} [Add (1, 1, 1)] = {(1, 1, 1)}
   \<and> \<not> is_fact (0, - 1, 2) \<and> \<not> IsTrue s1_facts (0, - 1, 2)
   \<and> (\<exists>s'. AddFact s1_facts (0, - 1, 2) = Inr s' \<and> IsTrue s' (0, - 1, 2)
        \<and> set (Lookup s' (0, 0, 0)) = {(1, 1, 1), (0, - 1, 2)})
   \<and> \<not> is_fact (0, 2, 2) \<and> \<not> matches (0, 2, 2) (1, 1, 1)
   \<and> (\<exists>s'. AddFact s1_facts (0, 2, 2) = Inr s' \<and> IsTrue s' (0, 2, 2))
   \<and> \<not> is_fact (0, 1, 1) \<and> matches (0, 1, 1) (1, 1, 1)
   \<and> IsTrue s1_facts (0, 1, 1) \<and> AddFact s1_facts (0, 1, 1) = Inl AssertionFailed"
proof -
  have pos: "\<forall>x\<in>set [Add (1, 1, 1)]. is_fact (op_fact x)" by (simp add: is_fact_def)
  have pr: "present_after {} [Add (1, 1, 1)] = {(1, 1, 1)}" by simp
  have a: "\<not> is_fact (0, - 1, 2)" "\<not> is_fact (0, 2, 2)" "\<not> is_fact (0, 1, 1)"
    by (simp_all add: is_fact_def)
  have m: "\<not> matches (0, - 1, 2) (1, 1, 1)" "\<not> matches (0, 2, 2) (1, 1, 1)"
    "matches (0, 1, 1) (1, 1, 1)" "matches (0, 0, 0) (1, 1, 1)" "matches (0, 0, 0) (0, - 1, 2)"
    by (simp_all add: matches_def)
  have l: "Lookup s1_facts (0, 0, 0) = [(1, 1, 1)]" by code_simp
  note built = s1_facts_built
  have i1: "IsTrue s1_facts (0, - 1, 2) \<longleftrightarrow> (\<exists>g\<in>present_after {} [Add (1, 1, 1)]. matches (0, - 1, 2) g)"
    using AddFact_no_positivity_check [OF a(1), of s1_facts "[Add (1, 1, 1)]"] built pos by blast
  then have n1: "\<not> IsTrue s1_facts (0, - 1, 2)" using m by simp
  obtain s1 where s1: "AddFact s1_facts (0, - 1, 2) = Inr s1" "IsTrue s1 (0, - 1, 2)"
    "\<forall>key. set (Lookup s1 key) =
       set (Lookup s1_facts key) \<union> (if matches key (0, - 1, 2) then {(0, - 1, 2)} else {})"
    using AddFact_no_positivity_check [OF a(1), of s1_facts "[Add (1, 1, 1)]"] n1 by blast
  have "set (Lookup s1 (0, 0, 0)) = {(1, 1, 1), (0, - 1, 2)}"
    using s1(3) [rule_format, of "(0, 0, 0)"] m l by auto
  then have e1: "\<exists>s'. AddFact s1_facts (0, - 1, 2) = Inr s' \<and> IsTrue s' (0, - 1, 2)
        \<and> set (Lookup s' (0, 0, 0)) = {(1, 1, 1), (0, - 1, 2)}"
    using s1(1,2) by blast
  have i2: "IsTrue s1_facts (0, 2, 2) \<longleftrightarrow> (\<exists>g\<in>present_after {} [Add (1, 1, 1)]. matches (0, 2, 2) g)"
    using AddFact_no_positivity_check [OF a(2), of s1_facts "[Add (1, 1, 1)]"] built pos by blast
  then have n2: "\<not> IsTrue s1_facts (0, 2, 2)" using m by simp
  have e2: "\<exists>s'. AddFact s1_facts (0, 2, 2) = Inr s' \<and> IsTrue s' (0, 2, 2)"
    using AddFact_no_positivity_check [OF a(2), of s1_facts "[Add (1, 1, 1)]"] n2 by blast
  have i3: "IsTrue s1_facts (0, 1, 1) \<longleftrightarrow> (\<exists>g\<in>present_after {} [Add (1, 1, 1)]. matches (0, 1, 1) g)"
    using AddFact_no_positivity_check [OF a(3), of s1_facts "[Add (1, 1, 1)]"] built pos by blast
  then have t3: "IsTrue s1_facts (0, 1, 1)" using m by simp
  have e3: "AddFact s1_facts (0, 1, 1) = Inl AssertionFailed"
    using AddFact_no_positivity_check [OF a(3), of s1_facts "[Add (1, 1, 1)]"] t3 by blast
  have f: "is_fact (1, 1, 1)" by (simp add: is_fact_def)
  show ?thesis
    using built f pr a n1 e1 m(2) e2 m(3) t3 e3 by blast
qed

text \<open>
  The claim as stated fails when ``not already present'' is read as ``not among the facts
  added and not removed since'': after \<^verbatim>\<open>AddFact(1, 1, 1)\<close> on the empty FactIndex the
  triplet \<open>(0, 1, 1)\<close> has a zero position and was never added, yet \<^verbatim>\<open>IsTrue\<close> is true
  for it (its bucket holds \<open>(1, 1, 1)\<close>) and \<^verbatim>\<open>AddFact\<close> aborts on it. The same holds for
  \<open>(0, 0, 0)\<close>.
\<close>

theorem AddFact_no_positivity_check_counterexample:
  "apply_fact_ops empty_Structure [Add (1, 1, 1)] = Inr s1_facts
   \<and> \<not> is_fact (0, 1, 1) \<and> (0, 1, 1) \<notin> present_after {} [Add (1, 1, 1)]
   \<and> Lookup s1_facts (0, 1, 1) = [(1, 1, 1)]
   \<and> AddFact s1_facts (0, 1, 1) = Inl AssertionFailed
   \<and> \<not> is_fact (0, 0, 0) \<and> (0, 0, 0) \<notin> present_after {} [Add (1, 1, 1)]
   \<and> AddFact s1_facts (0, 0, 0) = Inl AssertionFailed"
proof -
  have "Lookup s1_facts (0, 1, 1) = [(1, 1, 1)]" by code_simp
  moreover have "IsTrue s1_facts (0, 1, 1)" by code_simp
  moreover have "IsTrue s1_facts (0, 0, 0)" by code_simp
  ultimately show ?thesis using s1_facts_built by (simp add: is_fact_def AddFact_def)
qed

section \<open>Solvers built by the constructor, and the calls made on them\<close>

lemma constructed_inv:
  assumes "new_Solver st n cs me = Inr s" and "length me = n"
  shows "valid s \<longrightarrow> search_inv s"
  using new_Solver_valid(1) [OF assms(1) _ assms(2)] by blast

lemma NextAssignments_inv:
  assumes "valid s \<longrightarrow> search_inv s" and "NextAssignments m s = Some (rs, s')"
  shows "(valid s' \<longrightarrow> search_inv s') \<and> same_problem s s'"
  using assms
proof (induction m arbitrary: s rs)
  case 0
  then show ?case by simp
next
  case (Suc m)
  from Suc.prems(2) obtain r s1 rs1 where
    r: "NextAssignment s = Some (r, s1)" "NextAssignments m s1 = Some (rs1, s')"
    by (auto split: option.splits)
  have "(valid s1 \<longrightarrow> search_inv s1) \<and> same_problem s s1"
  proof (cases "valid s")
    case True
    then show ?thesis using NextAssignment_correct [of s] Suc.prems(1) r(1) by auto
  next
    case False
    then show ?thesis using r(1) by (simp add: NextAssignment_invalid)
  qed
  then show ?case using Suc.IH [OF _ r(2)] same_problem_trans by blast
qed

lemma NextAssignment_returns:
  assumes "valid s \<longrightarrow> search_inv s"
  shows "\<exists>r s'. NextAssignment s = Some (r, s') \<and> same_problem s s' \<and>
           (r \<noteq> [] \<longrightarrow> valid s' = valid s) \<and> (r = [] \<longrightarrow> \<not> valid s')"
proof (cases "valid s")
  case True
  then obtain r s' where r: "NextAssignment s = Some (r, s')" "same_problem s s'"
    "(r = [] \<and> todo s = [] \<and> \<not> valid s') \<or>
     (length r = n_variables s \<and> todo s = r # todo s' \<and> search_inv s' \<and> valid s')"
    using NextAssignment_correct [of s] assms by blast
  have "0 < n_variables s" using assms True search_invD(1) [of s] by (simp add: problem_ok_def)
  then show ?thesis using r True by auto
next
  case False
  then show ?thesis by (simp add: NextAssignment_invalid)
qed

lemma completions_nonempty:
  assumes "0 < n" and "A \<in> set (completions s n [])"
  shows "A \<noteq> []"
  using assms by (auto simp: completions_iff)

lemma constructed_results:
  assumes "new_Solver st n cs me = Inr s" and "length me = n"
  shows "\<exists>s'. NextAssignments m s =
           Some (take m ((if valid s then completions s n [] else []) @ replicate m []), s')"
proof (cases "valid s")
  case True
  then show ?thesis
    using NextAssignments_correct [of s m] new_Solver_valid(1,2) [OF assms(1) True assms(2)]
    by auto
next
  case False
  then show ?thesis by (simp add: NextAssignments_invalid)
qed

lemma returned_is_completion:
  assumes "new_Solver st n cs me = Inr s0" and "length me = n"
    and "NextAssignments m s0 = Some (rs, s)" and "A \<in> set rs" and "A \<noteq> []"
  shows "valid s0" and "A \<in> set (completions s0 n [])"
proof -
  obtain s' where "NextAssignments m s0 =
      Some (take m ((if valid s0 then completions s0 n [] else []) @ replicate m []), s')"
    using constructed_results [OF assms(1,2)] by blast
  then have "rs = take m ((if valid s0 then completions s0 n [] else []) @ replicate m [])"
    using assms(3) by simp
  then have "A \<in> set ((if valid s0 then completions s0 n [] else []) @ replicate m [])"
    using assms(4) by (metis in_set_takeD)
  then have *: "A \<in> set (if valid s0 then completions s0 n [] else [])"
    using assms(5) by auto
  show "valid s0" using * by (auto split: if_splits)
  then show "A \<in> set (completions s0 n [])" using * by simp
qed

lemma completions_inequalities:
  assumes "new_Solver st n cs me = Inr s" and "valid s" and "length me = n"
    and "A \<in> set (completions s n [])"
    and "k < n" and "j < k" and "j \<notin> me ! k"
  shows "A ! j \<noteq> A ! k"
proof -
  note fr = new_Solver_frame [OF assms(1)]
  have pok: "problem_ok s" using new_Solver_valid(1) [OF assms(1,2,3)] by (rule search_invD(1))
  have len: "length A = n" and lo: "A ! k \<in> set (level_options s (take k A))"
    using assms(4,5) by (simp_all add: completions_iff)
  have lk: "length (take k A) = k" using assms(5) len by simp
  have "\<forall>j<k. j \<notin> may_equal s ! k \<longrightarrow> take k A ! j \<noteq> A ! k"
    using level_options_iff [OF pok, of "take k A" "A ! k"] lo assms(5) unfolding lk fr by blast
  then show ?thesis using assms(6,7) by (simp add: fr)
qed

lemma invalid_unsatisfiable:
  assumes "new_Solver st n cs me = Inr s" and "\<not> valid s"
  shows "\<not> satisfying st n cs me A"
proof -
  obtain c where c: "c \<in> set cs" "\<not> any_variables c" "\<not> IsTrue st c"
    using new_Solver_valid_iff [OF assms(1)] assms(2) by blast
  then have "\<not> IsTrue st (substitute A c)" by (simp add: substitute_ground)
  then show ?thesis using c(1) by (auto simp: satisfying_def all_constraints_facts_def)
qed

section \<open>The claims about the solver\<close>

text \<open>
  Claim C1 (soundness). Let the FactIndex be built from the empty one by \<^verbatim>\<open>AddFact\<close>
  and \<^verbatim>\<open>RemoveFact\<close> calls on positive facts, and the solver be built from it with a
  \<^verbatim>\<open>maybe_equal\<close> of length \<open>n\<close>. Every non-empty result \<open>A\<close> of a call to
  \<^verbatim>\<open>NextAssignment\<close> is a vector of \<open>n\<close> positive nodes, and substituting
  \<open>A ! k\<close> for the positions that hold \<open>- k\<close> in any of the constraints given to the
  constructor yields a fact of the FactIndex.
\<close>

theorem NextAssignment_sound:
  assumes "apply_fact_ops empty_Structure ops = Inr st"
    and "\<forall>x\<in>set ops. is_fact (op_fact x)"
    and "new_Solver st n cs me = Inr s0" and "length me = n"
    and "NextAssignments m s0 = Some (rs, s)" and "A \<in> set rs" and "A \<noteq> []"
    and "c \<in> set cs"
  shows "length A = n \<and> (\<forall>k<n. 0 < A ! k)
    \<and> is_fact (substitute A c) \<and> IsTrue st (substitute A c)"
proof -
  have inv: "bucket_inv (present_after {} ops) st"
    using bucket_inv_ops [OF bucket_inv_empty assms(2) assms(1)] .
  have "valid s0" "A \<in> set (completions s0 n [])"
    using returned_is_completion [OF assms(3,4,5,6,7)] by simp_all
  then have "satisfying st n cs me A"
    using completions_sound [OF inv assms(3) _ assms(4)] by simp
  then show ?thesis using assms(8) by (simp add: satisfying_def all_constraints_facts_def)
qed

theorem NextAssignment_sound_witness:
  "apply_fact_ops empty_Structure [Add (1, 1, 2)] = Inr pair_facts
   \<and> new_Solver pair_facts 2 [(0, 0, - 1)] [{}, {}] = Inr pair_solver
   \<and> map_option fst (NextAssignments 1 pair_solver) = Some [[1, 2]]
   \<and> substitute [1, 2] (0, 0, - 1) = (1, 1, 2)
   \<and> is_fact (substitute [1, 2] (0, 0, - 1)) \<and> IsTrue pair_facts (substitute [1, 2] (0, 0, - 1))"
proof -
  have r: "map_option fst (NextAssignments 1 pair_solver) = Some [[1, 2]]" by code_simp
  then obtain s where s: "NextAssignments 1 pair_solver = Some ([[1, 2]], s)" by auto
  have pos: "\<forall>x\<in>set [Add (1, 1, 2)]. is_fact (op_fact x)" by (simp add: is_fact_def)
  have sub: "substitute [1, 2] (0, 0, - 1) = (1, 1, 2)" by (simp add: substitute_def IsVariable_def)
  show ?thesis
    using NextAssignment_sound [OF pair_facts_built pos pair_solver_built _ s, of "[1, 2]" "(0, 0, - 1)"]
      pair_facts_built pair_solver_built r sub by simp
qed

text \<open>
  Claim C4 (inequality enforcement). For a solver built with a \<^verbatim>\<open>maybe_equal\<close> of
  length \<open>n\<close>, every non-empty result \<open>A\<close> of a call to \<^verbatim>\<open>NextAssignment\<close> has
  \<open>A ! j \<noteq> A ! k\<close> for all \<open>j < k < n\<close> with \<open>j\<close> not in \<open>maybe_equal ! k\<close>.
\<close>

theorem NextAssignment_inequalities:
  assumes "new_Solver st n cs me = Inr s0" and "length me = n"
    and "NextAssignments m s0 = Some (rs, s)" and "A \<in> set rs" and "A \<noteq> []"
    and "j < k" and "k < n" and "j \<notin> me ! k"
  shows "A ! j \<noteq> A ! k"
proof -
  have "valid s0" "A \<in> set (completions s0 n [])"
    using returned_is_completion [OF assms(1,2,3,4,5)] by simp_all
  then show ?thesis
    using completions_inequalities [OF assms(1) _ assms(2) _ assms(7,6,8)] by simp
qed

theorem NextAssignment_inequalities_witness:
  "new_Solver pair_facts 2 [(0, 0, - 1)] [{}, {}] = Inr pair_solver
   \<and> map_option fst (NextAssignments 2 pair_solver) = Some [[1, 2], []]
   \<and> (0::nat) \<notin> [{}, {}] ! 1
   \<and> [1, 2] ! 0 \<noteq> ([1, 2] ! 1 :: int)"
proof -
  have r: "map_option fst (NextAssignments 2 pair_solver) = Some [[1, 2], []]" by code_simp
  then obtain s where s: "NextAssignments 2 pair_solver = Some ([[1, 2], []], s)" by auto
  have "[1, 2] ! 0 \<noteq> ([1, 2] ! 1 :: int)"
    by (rule NextAssignment_inequalities [OF pair_solver_built _ s]) simp_all
  then show ?thesis using pair_solver_built r by simp
qed

text \<open>
  Claim C5 (ground-constraint infeasibility). If the constructor returns a solver and one
  of the constraints has three positive positions and is not a fact of the FactIndex,
  then \<^verbatim>\<open>IsValid\<close> is false and every call to \<^verbatim>\<open>NextAssignment\<close> returns the empty
  result and leaves the solver as it is.
\<close>

theorem ground_constraint_infeasible:
  assumes "new_Solver st n cs me = Inr s" and "c \<in> set cs" and "is_fact c"
    and "\<not> IsTrue st c"
  shows "\<not> IsValid s \<and> NextAssignment s = Some ([], s)
    \<and> NextAssignments m s = Some (replicate m [], s)"
proof -
  have "\<not> any_variables c"
    using assms(3) unfolding is_fact_iff any_variables_iff by (auto simp: IsVariable_def)
  then have "\<not> valid s"
    using new_Solver_valid_iff [OF assms(1)] assms(2,4) by blast
  then show ?thesis
    by (simp add: IsValid_def NextAssignment_invalid NextAssignments_invalid)
qed

theorem ground_constraint_infeasible_witness:
  "new_Solver s1_facts 1 [(2, 2, 2), (0, 0, 0)] [{}] = Inr s3_solver
   \<and> is_fact (2, 2, 2) \<and> \<not> IsTrue s1_facts (2, 2, 2)
   \<and> \<not> IsValid s3_solver \<and> NextAssignment s3_solver = Some ([], s3_solver)"
proof -
  have f: "is_fact (2, 2, 2)" by (simp add: is_fact_def)
  have n: "\<not> IsTrue s1_facts (2, 2, 2)" by code_simp
  show ?thesis
    using ground_constraint_infeasible [OF s3_solver_built _ f n, of 0] s3_solver_built f n by simp
qed

text \<open>
  Claim C2 (completeness and uniqueness), as amended. Let the FactIndex be built from the
  empty one by \<^verbatim>\<open>AddFact\<close> and \<^verbatim>\<open>RemoveFact\<close> calls on positive facts, the solver be
  built from it with a \<^verbatim>\<open>maybe_equal\<close> of length \<open>n\<close>, and every variable index below
  \<open>n\<close> be mentioned by at least one constraint. Then calling \<^verbatim>\<open>NextAssignment\<close> until
  it returns empty produces every assignment of positive nodes to the \<open>n\<close> variables that
  makes all constraints facts and satisfies the inequality restrictions, each exactly
  once.
\<close>

theorem enumeration_complete:
  assumes "apply_fact_ops empty_Structure ops = Inr st"
    and "\<forall>x\<in>set ops. is_fact (op_fact x)"
    and "new_Solver st n cs me = Inr s0" and "length me = n"
    and "\<forall>k<n. \<exists>c\<in>set cs. mentions c k"
  shows "\<exists>m rs s. NextAssignments (Suc m) s0 = Some (rs @ [[]], s)
    \<and> [] \<notin> set rs \<and> distinct rs \<and> set rs = {A. satisfying st n cs me A}"
proof (cases "valid s0")
  case True
  have inv: "bucket_inv (present_after {} ops) st"
    using bucket_inv_ops [OF bucket_inv_empty assms(2) assms(1)] .
  define rs where "rs = completions s0 n []"
  obtain s where "NextAssignments (Suc (length rs)) s0 =
      Some (take (Suc (length rs)) (rs @ replicate (Suc (length rs)) []), s)"
    using constructed_results [OF assms(3,4), of "Suc (length rs)"] True by (auto simp: rs_def)
  then have 1: "NextAssignments (Suc (length rs)) s0 = Some (rs @ [[]], s)"
    by (simp del: NextAssignments.simps)
  have 2: "[] \<notin> set rs"
    using completions_nonempty [OF new_Solver_frame(4) [OF assms(3)]] by (auto simp: rs_def)
  have 3: "distinct rs" by (simp add: rs_def distinct_completions)
  have 4: "set rs = {A. satisfying st n cs me A}"
    unfolding rs_def
    using completions_sound [OF inv assms(3) True assms(4)]
      completions_complete [OF inv assms(3) True assms(4) _ assms(5)] by blast
  show ?thesis using 1 2 3 4 by blast
next
  case False
  have "NextAssignments (Suc 0) s0 = Some ([] @ [[]], s0)"
    using False by (simp add: NextAssignment_invalid)
  moreover have "set [] = {A. satisfying st n cs me A}"
    using invalid_unsatisfiable [OF assms(3) False] by simp
  ultimately show ?thesis by (metis distinct.simps(1) empty_iff empty_set)
qed

theorem enumeration_complete_witness:
  "apply_fact_ops empty_Structure [Add (1, 1, 2)] = Inr pair_facts
   \<and> new_Solver pair_facts 2 [(0, 0, - 1)] [{}, {}] = Inr pair_solver
   \<and> mentions (0, 0, - 1) 0 \<and> mentions (0, 0, - 1) 1
   \<and> (\<exists>m rs s. NextAssignments (Suc m) pair_solver = Some (rs @ [[]], s)
        \<and> [] \<notin> set rs \<and> distinct rs
        \<and> set rs = {A. satisfying pair_facts 2 [(0, 0, - 1)] [{}, {}] A})"
proof -
  have pos: "\<forall>x\<in>set [Add (1, 1, 2)]. is_fact (op_fact x)" by (simp add: is_fact_def)
  have m: "mentions (0, 0, - 1) 0" "mentions (0, 0, - 1) 1" by (simp_all add: mentions_def)
  then have all: "\<forall>k<2. \<exists>c\<in>set [(0, 0, - 1)]. mentions c k"
    by (simp add: less_2_cases_iff)
  show ?thesis
    using enumeration_complete [OF pair_facts_built pos pair_solver_built _ all] pair_facts_built pair_solver_built m
    by simp
qed

text \<open>
  The claim as stated, without the condition on the variables, fails: with the single
  fact \<open>(1, 1, 1)\<close>, two variables and the single constraint \<open>(-0, -0, -0)\<close>, the
  assignment \<open>[1, 2]\<close> makes the constraint a fact and gives the two variables
  different nodes, yet the first call returns empty.
\<close>

theorem enumeration_complete_counterexample:
  "apply_fact_ops empty_Structure [Add (1, 1, 1)] = Inr s1_facts
   \<and> new_Solver s1_facts 2 [(0, 0, 0)] [{}, {}] = Inr free_variable_solver
   \<and> satisfying s1_facts 2 [(0, 0, 0)] [{}, {}] [1, 2]
   \<and> map_option fst (NextAssignment free_variable_solver) = Some []"
proof -
  have "satisfying s1_facts 2 [(0, 0, 0)] [{}, {}] [1, 2]" by code_simp
  moreover have "map_option fst (NextAssignment free_variable_solver) = Some []" by code_simp
  ultimately show ?thesis using s1_facts_built free_variable_solver_built by simp
qed

text \<open>
  Claim C7 (frame condition), as amended. A call to \<^verbatim>\<open>NextAssignment\<close> on a solver
  built by the constructor, after any number of earlier calls, returns and leaves the
  FactIndex, \<^verbatim>\<open>n_variables\<close>, the stored constraints, \<^verbatim>\<open>var_to_constraints\<close> and
  \<^verbatim>\<open>may_equal\<close> unchanged. It leaves the valid flag unchanged when it returns an
  assignment; when it returns empty the valid flag is false afterwards.
\<close>

theorem NextAssignment_frame:
  assumes "new_Solver st n cs me = Inr s0" and "length me = n"
    and "NextAssignments m s0 = Some (rs, s)"
  shows "\<exists>r s'. NextAssignment s = Some (r, s')
    \<and> structure_ref s' = structure_ref s \<and> n_variables s' = n_variables s
    \<and> constraints s' = constraints s \<and> var_to_constraints s' = var_to_constraints s
    \<and> may_equal s' = may_equal s
    \<and> (r \<noteq> [] \<longrightarrow> valid s' = valid s) \<and> (r = [] \<longrightarrow> \<not> valid s')"
proof -
  have "valid s \<longrightarrow> search_inv s"
    using NextAssignments_inv [OF constructed_inv [OF assms(1,2)] assms(3)] by blast
  then show ?thesis
    using NextAssignment_returns [of s] unfolding same_problem_def by blast
qed

theorem NextAssignment_frame_witness:
  "new_Solver s1_facts 1 [(0, 0, 0)] [{}] = Inr s1_solver
   \<and> (\<exists>r s'. NextAssignment s1_solver = Some (r, s')
        \<and> constraints s' = constraints s1_solver \<and> may_equal s' = may_equal s1_solver)"
proof -
  have "NextAssignments 0 s1_solver = Some ([], s1_solver)" by simp
  from NextAssignment_frame [OF s1_solver_built _ this] show ?thesis
    using s1_solver_built by auto
qed

text \<open>
  The claim as stated, with the valid flag among the fields left unchanged, fails: the
  call that finds the search exhausted sets the flag to false.
\<close>

theorem NextAssignment_frame_counterexample:
  "valid free_variable_solver
   \<and> map_option (valid \<circ> snd) (NextAssignment free_variable_solver) = Some False"
  by code_simp

section \<open>The constructor and GetOptions do not look at entries \<open>j \<ge> k\<close> of may\_equal\<close>

lemma may_equal_update_commute:
  "r\<lparr>may_equal := a, var_to_constraints := b\<rparr> = r\<lparr>var_to_constraints := b, may_equal := a\<rparr>"
  "r\<lparr>may_equal := a, constraints := c\<rparr> = r\<lparr>constraints := c, may_equal := a\<rparr>"
  "r\<lparr>may_equal := a, valid := d\<rparr> = r\<lparr>valid := d, may_equal := a\<rparr>"
  "r\<lparr>may_equal := a, working_constraints := c\<rparr> = r\<lparr>working_constraints := c, may_equal := a\<rparr>"
  by (cases r; simp)+

lemma Solver_loop_may_equal:
  "Solver_loop cs (s\<lparr>may_equal := me'\<rparr>) =
   (case Solver_loop cs s of Inl e \<Rightarrow> Inl e | Inr s' \<Rightarrow> Inr (s'\<lparr>may_equal := me'\<rparr>))"
proof (induction cs arbitrary: s)
  case Nil
  then show ?case by simp
next
  case (Cons c cs)
  show ?case
  proof (cases "index_variables (positions c) (length (constraints s)) (var_to_constraints s)")
    case (Inl e)
    then show ?thesis by simp
  next
    case (Inr vtc)
    show ?thesis using Inr by (simp add: Let_def may_equal_update_commute Cons.IH)
  qed
qed

lemma new_Solver_may_equal_failure:
  "new_Solver st n cs me = Inl e \<longleftrightarrow> new_Solver st n cs me' = Inl e"
proof -
  have i: "init_Solver st n me' = (init_Solver st n me)\<lparr>may_equal := me'\<rparr>" for me me'
    by (simp add: init_Solver_def)
  have "new_Solver st n cs me' = Inl e" if "new_Solver st n cs me = Inl e" for me me'
    using that unfolding new_Solver_def i [of me' me] Solver_loop_may_equal
    by (auto split: sum.splits if_splits)
  then show ?thesis by blast
qed

lemma inequality_filter_clip:
  "inequality_filter {j \<in> S. j < k} A k opts = inequality_filter S A k opts"
  unfolding inequality_filter_def by (rule foldl_cong) auto

lemma nth_clip_may_equal: "k < length me \<Longrightarrow> clip_may_equal me ! k = {j \<in> me ! k. j < k}"
  by (simp add: clip_may_equal_def)

lemma length_clip_may_equal [simp]: "length (clip_may_equal me) = length me"
  by (simp add: clip_may_equal_def)

lemma completions_cong:
  assumes "\<And>p. length p < n \<Longrightarrow> level_options s' p = level_options s p"
  shows "length p + d \<le> n \<Longrightarrow> completions s' d p = completions s d p"
proof (induction d arbitrary: p)
  case 0
  then show ?case by simp
next
  case (Suc d)
  have "level_options s' p = level_options s p" using Suc.prems by (intro assms) simp
  moreover have "completions s' d (p @ [v]) = completions s d (p @ [v])" for v
    using Suc.prems by (intro Suc.IH) simp
  ultimately show ?case by simp
qed

lemma new_Solver_clip:
  assumes "new_Solver st n cs me = Inr s" and "length me = n"
  shows "\<exists>s'. new_Solver st n cs (clip_may_equal me) = Inr s' \<and> valid s' = valid s \<and>
           completions s' n [] = completions s n []"
proof -
  from assms(1) obtain t where t: "0 < n" "Solver_loop cs (init_Solver st n me) = Inr t"
    "s = (if valid t then GetOptions (t\<lparr>working_constraints := constraints t\<rparr>) else t)"
    by (rule new_Solver_cases)
  define me' where "me' = clip_may_equal me"
  define s' where "s' = (if valid t
      then GetOptions (t\<lparr>working_constraints := constraints t, may_equal := me'\<rparr>)
      else t\<lparr>may_equal := me'\<rparr>)"
  have i: "init_Solver st n me' = (init_Solver st n me)\<lparr>may_equal := me'\<rparr>"
    by (simp add: init_Solver_def)
  have n: "new_Solver st n cs me' = Inr s'"
    unfolding new_Solver_def i Solver_loop_may_equal
    using t(1,2) by (simp add: s'_def may_equal_update_commute)
  have v: "valid s' = valid s" by (simp add: s'_def t(3))
  have tm: "may_equal t = me" using Solver_loop_frame [OF t(2)] by (simp add: init_Solver_def)
  have f: "structure_ref s' = structure_ref s" "constraints s' = constraints s"
    "var_to_constraints s' = var_to_constraints s"
    "may_equal s' = me'" "may_equal s = me"
    by (simp_all add: s'_def t(3) tm)
  have "level_options s' p = level_options s p" if "length p < n" for p
    using that assms(2) unfolding level_options_def Let_def f me'_def
    by (simp add: nth_clip_may_equal inequality_filter_clip)
  then have "completions s' n [] = completions s n []"
    by (intro completions_cong [of n]) simp_all
  then show ?thesis using n v unfolding me'_def by blast
qed

text \<open>
  Claim C8 (malformed \<^verbatim>\<open>may_equal\<close>), as amended. The constructor does not check
  \<^verbatim>\<open>may_equal\<close>: whether it fails, and how, does not depend on \<^verbatim>\<open>may_equal\<close> at
  all, so a list in which some \<open>may_equal ! k\<close> holds an index \<open>j \<ge> k\<close> is accepted.
  Such entries are never consulted: the solver returns, call after call, the same
  results as the solver built with these entries removed.
\<close>

theorem may_equal_not_checked:
  "(new_Solver st n cs me = Inl e \<longleftrightarrow> new_Solver st n cs me' = Inl e) \<and>
   (new_Solver st n cs me = Inr s \<and> length me = n \<longrightarrow>
     (\<exists>s'. new_Solver st n cs (clip_may_equal me) = Inr s' \<and>
        (\<forall>m. map_option fst (NextAssignments m s') = map_option fst (NextAssignments m s))))"
proof -
  have "\<exists>s'. new_Solver st n cs (clip_may_equal me) = Inr s' \<and>
        (\<forall>m. map_option fst (NextAssignments m s') = map_option fst (NextAssignments m s))"
    if a: "new_Solver st n cs me = Inr s" "length me = n"
  proof -
    obtain s' where s': "new_Solver st n cs (clip_may_equal me) = Inr s'" "valid s' = valid s"
      "completions s' n [] = completions s n []"
      using new_Solver_clip [OF a] by blast
    have "map_option fst (NextAssignments m s') = map_option fst (NextAssignments m s)" for m
      using constructed_results [OF a, of m] constructed_results [OF s'(1), of m] a(2) s'(2,3)
      by auto
    then show ?thesis using s'(1) by blast
  qed
  then show ?thesis using new_Solver_may_equal_failure [of st n cs me e me'] by blast
qed

theorem may_equal_not_checked_witness:
  "new_Solver s1_facts 1 [(0, 0, 0)] [{0}] = Inr self_equal_solver
   \<and> clip_may_equal [{0}] = [{}]
   \<and> (\<exists>s'. new_Solver s1_facts 1 [(0, 0, 0)] [{}] = Inr s' \<and>
        map_option fst (NextAssignments 2 s') = map_option fst (NextAssignments 2 self_equal_solver))"
proof -
  have c: "clip_may_equal [{0}] = [{}]" by (simp add: clip_may_equal_def)
  show ?thesis
    using may_equal_not_checked [of s1_facts 1 "[(0, 0, 0)]" "[{0}]" AssertionFailed "[]"
        self_equal_solver] self_equal_solver_built c
    by auto
qed

text \<open>
  The claim as stated fails: with \<open>may_equal ! 0 = {0}\<close>, which refers to an index that
  is not below \<open>0\<close>, the constructor returns a solver, and the solver enumerates as
  usual.
\<close>

theorem may_equal_not_checked_counterexample:
  "(0::nat) \<in> [{0}] ! 0
   \<and> new_Solver s1_facts 1 [(0, 0, 0)] [{0}] = Inr self_equal_solver
   \<and> map_option fst (NextAssignments 2 self_equal_solver) = Some [[1], []]"
proof -
  have "map_option fst (NextAssignments 2 self_equal_solver) = Some [[1], []]" by code_simp
  then show ?thesis using self_equal_solver_built by simp
qed

section \<open>The working constraints at every point of the search\<close>

lemma working_ok_invariant:
  assumes "working_ok s"
  shows "working_invariant s"
proof -
  have w: "working_constraints s = map (subst_upto (assignment s) (nat (current_index s))) (constraints s)"
    using assms by (simp add: working_ok_def)
  have "positions (working_constraints s ! i) ! j =
      subst_pos (assignment s) (nat (current_index s)) (positions (constraints s ! i) ! j)"
    if "i < length (constraints s)" "j < 3" for i j
    using that by (simp add: w positions_subst_upto)
  moreover have "IsVariable x \<and> - x < current_index s \<longrightarrow>
      subst_pos (assignment s) (nat (current_index s)) x = assignment s ! nat (- x)" for x
    by (auto simp: subst_pos_def IsVariable_def)
  moreover have "IsVariable x \<and> current_index s \<le> - x \<longrightarrow>
      subst_pos (assignment s) (nat (current_index s)) x = x" for x
    by (auto simp: subst_pos_def IsVariable_def)
  ultimately show ?thesis unfolding working_invariant_def by (simp add: w)
qed

lemma search_point_inv:
  assumes "search_inv s0" and "search_point s0 pc s"
  shows "(pc = Head \<longrightarrow> search_inv s \<or> (current_index s < 0 \<and> working_ok s)) \<and>
         (pc = Advanced \<longrightarrow> (\<exists>h. search_inv h \<and>
             options_it (states h ! nat (current_index h)) \<noteq> [] \<and> s = descend h)) \<and>
         (pc = Assigned \<longrightarrow> working_ok s) \<and> (pc = Exhausted \<longrightarrow> working_ok s)"
  using assms(2)
proof (induction rule: search_point.induct)
  case start
  then show ?case using assms(1) by simp
next
  case (backtrack s)
  then have inv: "search_inv s" by auto
  note d = search_invD [OF inv]
  show ?case
  proof (cases "current_index s = 0")
    case True
    have "working_ok (UnAssign s)" using d(1,2,3,6) by (intro working_ok_UnAssign) simp_all
    then show ?thesis using True by simp
  next
    case False
    then have "0 < current_index s" using backtrack.hyps(2) by simp
    then show ?thesis using inv_backtrack(1) [OF inv backtrack.hyps(3)] by simp
  qed
next
  case (assign s)
  then have inv: "search_inv s" by auto
  note d = search_invD [OF inv]
  have "working_ok (Assign (hd (options_it (states s ! nat (current_index s)))) s)"
    using d(1,2,3,4,6) search_inv_assigned_pos [OF inv] by (intro working_ok_Assign) simp_all
  then show ?case by simp
next
  case (advance s)
  then have "search_inv s" by auto
  then show ?case using advance.hyps(3) by auto
next
  case (found s)
  then obtain h where h: "search_inv h" "options_it (states h ! nat (current_index h)) \<noteq> []"
    "s = descend h" by auto
  obtain v r where vr: "options_it (states h ! nat (current_index h)) = v # r"
    using h(2) by (cases "options_it (states h ! nat (current_index h))") auto
  have "current_index h + 1 = int (n_variables h)" using found.hyps(2) by (simp add: h(3))
  then show ?case using inv_found(1) [OF h(1) vr] by (simp add: h(3))
next
  case (next_level s)
  then obtain h where h: "search_inv h" "options_it (states h ! nat (current_index h)) \<noteq> []"
    "s = descend h" by auto
  obtain v r where vr: "options_it (states h ! nat (current_index h)) = v # r"
    using h(2) by (cases "options_it (states h ! nat (current_index h))") auto
  have "current_index h + 1 \<noteq> int (n_variables h)" using next_level.hyps(2) by (simp add: h(3))
  then show ?case using inv_descend(1) [OF h(1) vr] by (simp add: h(3))
next
  case (exhausted s)
  then have "working_ok s" using search_invD(2) by fastforce
  then show ?case using working_ok_cong [of "s\<lparr>valid := False\<rparr>" s] by simp
qed

lemma search_point_working_ok:
  assumes "search_inv s0" and "search_point s0 pc s"
  shows "working_ok s"
proof (cases pc)
  case Head
  then show ?thesis using search_point_inv [OF assms] search_invD(6) by blast
next
  case Assigned
  then show ?thesis using search_point_inv [OF assms] by blast
next
  case Advanced
  then show ?thesis using search_point_inv [OF assms] descend_working_ok by blast
next
  case Exhausted
  then show ?thesis using search_point_inv [OF assms] by blast
qed

text \<open>The loop of \<^verbatim>\<open>NextAssignment\<close> moves from point to point.\<close>

lemma loop_search_point:
  assumes "search_inv s" and "search_point s0 Head s"
    and "NextAssignment_loop s = Some (r, s')"
  shows "search_point s0 (if r = [] then Exhausted else Head) s'"
  using assms
proof (induction s rule: wf_induct_rule [OF wf_search_measure])
  case (1 s)
  note inv = search_invD [OF "1.prems"(1)]
  show ?case
  proof (cases "options_it (states s ! nat (current_index s))")
    case Nil
    have l: "NextAssignment_loop s = NextAssignment_loop (UnAssign s)"
      using inv(2) Nil by (rule loop_backtrack)
    have p: "search_point s0 Head (UnAssign s)"
      using "1.prems"(2) inv(2) Nil by (rule search_point.backtrack)
    show ?thesis
    proof (cases "current_index s = 0")
      case True
      have "NextAssignment_loop s = Some ([], (UnAssign s)\<lparr>valid := False\<rparr>)"
        unfolding l using True by (intro loop_exhausted) simp
      then have "r = []" "s' = (UnAssign s)\<lparr>valid := False\<rparr>" using "1.prems"(3) by simp_all
      moreover have "search_point s0 Exhausted ((UnAssign s)\<lparr>valid := False\<rparr>)"
        using p True by (intro search_point.exhausted) simp_all
      ultimately show ?thesis by simp
    next
      case False
      then have pos: "0 < current_index s" using inv(2) by simp
      have m: "(UnAssign s, s) \<in> inv_image (lex less_than) search_measure"
        using measure_backtrack [OF inv(2)] by simp
      show ?thesis
        using "1.IH" [OF m inv_backtrack(1) [OF "1.prems"(1) Nil pos] p] "1.prems"(3)
        unfolding l by simp
    qed
  next
    case (Cons v vs)
    then have ne: "options_it (states s ! nat (current_index s)) \<noteq> []" by simp
    have p: "search_point s0 Advanced (descend s)"
      using "1.prems"(2) inv(2) ne by (rule search_point.advance)
    show ?thesis
    proof (cases "current_index s + 1 = int (n_variables s)")
      case True
      have "NextAssignment_loop s = Some (assignment (descend s), UnAssign (descend s))"
        using inv(2) ne True by (rule loop_found)
      then have r: "r = assignment (descend s)" "s' = UnAssign (descend s)"
        using "1.prems"(3) by simp_all
      have "length r = n_variables s" using inv_found(3) [OF "1.prems"(1) Cons True] r(1) by simp
      then have "r \<noteq> []" using inv(2,3) by auto
      moreover have "search_point s0 Head (UnAssign (descend s))"
        using p True by (intro search_point.found) simp_all
      ultimately show ?thesis using r(2) by simp
    next
      case False
      let ?s = "GetOptions (descend s)"
      have l: "NextAssignment_loop s = NextAssignment_loop ?s"
        using inv(2) ne False by (rule loop_descend)
      have "nat (current_index s) < length (states s)" using inv(2,3,5) by simp
      then have m: "(?s, s) \<in> inv_image (lex less_than) search_measure"
        using measure_descend [OF inv(2) _ ne] by simp
      have "search_point s0 Head ?s"
        using p False by (intro search_point.next_level) simp_all
      then show ?thesis
        using "1.IH" [OF m inv_descend(1) [OF "1.prems"(1) Cons False]] "1.prems"(3)
        unfolding l by simp
    qed
  qed
qed

lemma calls_search_point:
  assumes "(valid s \<and> search_inv s \<and> search_point s0 Head s) \<or>
           (\<not> valid s \<and> search_point s0 Exhausted s)"
    and "NextAssignments m s = Some (rs, s')"
  shows "(valid s' \<and> search_inv s' \<and> search_point s0 Head s') \<or>
         (\<not> valid s' \<and> search_point s0 Exhausted s')"
  using assms
proof (induction m arbitrary: s rs)
  case 0
  then show ?case by simp
next
  case (Suc m)
  from Suc.prems(2) obtain r s1 rs1 where
    r: "NextAssignment s = Some (r, s1)" "NextAssignments m s1 = Some (rs1, s')"
    by (auto split: option.splits)
  have "(valid s1 \<and> search_inv s1 \<and> search_point s0 Head s1) \<or>
        (\<not> valid s1 \<and> search_point s0 Exhausted s1)"
  proof (cases "valid s")
    case True
    then have inv: "search_inv s" and p: "search_point s0 Head s" using Suc.prems(1) by auto
    have "0 < n_variables s" using search_invD(1) [OF inv] by (simp add: problem_ok_def)
    then have l: "NextAssignment_loop s = Some (r, s1)"
      using r(1) True by (simp add: NextAssignment_def)
    have "search_point s0 (if r = [] then Exhausted else Head) s1"
      using inv p l by (rule loop_search_point)
    moreover have "(r = [] \<and> \<not> valid s1) \<or> (r \<noteq> [] \<and> search_inv s1 \<and> valid s1)"
      using NextAssignment_correct [OF inv True] r(1) \<open>0 < n_variables s\<close> by auto
    ultimately show ?thesis by auto
  next
    case False
    then have "s1 = s" using r(1) by (simp add: NextAssignment_invalid)
    then show ?thesis using False Suc.prems(1) by auto
  qed
  then show ?case using Suc.IH r(2) by blast
qed

text \<open>
  Claim C6 (working-constraints invariant). For a solver built valid by the constructor
  with a \<^verbatim>\<open>maybe_equal\<close> of length \<open>n\<close>, at every point of the search (at the head
  of the loop, after \<^verbatim>\<open>Assign\<close>, after the increment of the cursor, after
  \<^verbatim>\<open>UnAssign\<close> and \<^verbatim>\<open>GetOptions\<close>, and once the search is exhausted), each position
  of \<^verbatim>\<open>working_constraints\<close> whose original holds a variable of index below
  \<^verbatim>\<open>current_index\<close> holds the node assigned to that variable, and each position whose
  original holds a variable of index at least \<^verbatim>\<open>current_index\<close> holds that variable's
  encoding. The states in which calls to \<^verbatim>\<open>NextAssignment\<close> leave the solver are
  among these points.
\<close>

theorem working_constraints_invariant:
  assumes "new_Solver st n cs me = Inr s0" and "valid s0" and "length me = n"
  shows "(search_point s0 pc s \<longrightarrow> working_invariant s) \<and>
    (NextAssignments m s0 = Some (rs, s') \<longrightarrow> (\<exists>pc'. search_point s0 pc' s'))"
proof -
  have inv: "search_inv s0" using new_Solver_valid(1) [OF assms] .
  have 1: "search_point s0 pc s \<longrightarrow> working_invariant s"
    using search_point_working_ok [OF inv] working_ok_invariant by blast
  have "(valid s0 \<and> search_inv s0 \<and> search_point s0 Head s0) \<or>
        (\<not> valid s0 \<and> search_point s0 Exhausted s0)"
    using assms(2) inv search_point.start by blast
  then have 2: "NextAssignments m s0 = Some (rs, s') \<longrightarrow> (\<exists>pc'. search_point s0 pc' s')"
    using calls_search_point [of s0 s0 m rs s'] by blast
  show ?thesis using 1 2 by blast
qed

theorem working_constraints_invariant_witness:
  "new_Solver s1_facts 1 [(0, 0, 0)] [{}] = Inr s1_solver \<and> valid s1_solver
   \<and> search_point s1_solver Assigned (Assign 1 s1_solver)
   \<and> working_constraints (Assign 1 s1_solver) = [(1, 1, 1)]
   \<and> working_invariant (Assign 1 s1_solver)"
proof -
  have v: "valid s1_solver" by code_simp
  have c: "0 \<le> current_index s1_solver"
    "options_it (states s1_solver ! nat (current_index s1_solver)) \<noteq> []"
    "hd (options_it (states s1_solver ! nat (current_index s1_solver))) = 1"
    by code_simp+
  have p: "search_point s1_solver Assigned (Assign 1 s1_solver)"
    using search_point.assign [OF search_point.start c(1,2)] by (simp add: c(3))
  have w: "working_constraints (Assign 1 s1_solver) = [(1, 1, 1)]" by code_simp
  show ?thesis
    using working_constraints_invariant [OF s1_solver_built v, of Assigned "Assign 1 s1_solver" 0 "[]" s1_solver]
      s1_solver_built v p w by simp
qed

section \<open>A variable that no constraint mentions\<close>

lemma GetOptions_keeps_empty:
  assumes "var_to_constraints s ! k = []" and "options (states s ! k) = []"
    and "k < length (states s)"
  shows "options (states (GetOptions s) ! k) = []"
proof (cases "current_index s \<ge> int (n_variables s) \<or> current_index s < 0")
  case True
  then show ?thesis using assms(2) by (simp add: GetOptions_def)
next
  case False
  show ?thesis
  proof (cases "nat (current_index s) = k")
    case True
    then show ?thesis
      using False assms by (simp add: GetOptions_def Let_def inequality_filter_Nil)
  next
    case ne: False
    then show ?thesis
      using False assms(2) by (simp add: GetOptions_def Let_def)
  qed
qed

lemma new_Solver_unconstrained:
  assumes "new_Solver st n cs me = Inr s" and "k < n" and "var_to_constraints s ! k = []"
  shows "options (states s ! k) = []"
proof -
  from assms(1) obtain t where t: "0 < n" "Solver_loop cs (init_Solver st n me) = Inr t"
    "s = (if valid t then GetOptions (t\<lparr>working_constraints := constraints t\<rparr>) else t)"
    by (rule new_Solver_cases)
  have st: "states t = replicate n new_State"
    using Solver_loop_frame [OF t(2)] by (simp add: init_Solver_def)
  show ?thesis
  proof (cases "valid t")
    case True
    then have s: "s = GetOptions (t\<lparr>working_constraints := constraints t\<rparr>)" by (simp add: t(3))
    show ?thesis
      unfolding s using assms(2,3) by (intro GetOptions_keeps_empty) (simp_all add: s st new_State_def)
  next
    case False
    then show ?thesis using assms(2) by (simp add: t(3) st new_State_def)
  qed
qed

lemma search_point_unconstrained:
  assumes "search_point s0 pc s" and "var_to_constraints s0 ! k = []"
    and "options (states s0 ! k) = []" and "k < length (states s0)"
  shows "options (states s ! k) = [] \<and> var_to_constraints s = var_to_constraints s0 \<and>
         length (states s) = length (states s0)"
  using assms(1)
proof (induction rule: search_point.induct)
  case start
  then show ?case using assms(3) by simp
next
  case (next_level s)
  then show ?case using assms(2,4) GetOptions_keeps_empty [of s k] by simp
next
  case (advance s)
  then show ?case using assms(4) by (cases "nat (current_index s) = k") simp_all
qed simp_all

text \<open>
  Claim C9 (unconstrained variable). For a solver built with a \<^verbatim>\<open>maybe_equal\<close> of
  length \<open>n\<close>, if the entry of \<^verbatim>\<open>var_to_constraints\<close> for a variable \<open>k < n\<close> is
  empty, then the candidates \<^verbatim>\<open>GetOptions\<close> computes for level \<open>k\<close> are empty
  whatever the earlier variables hold, the options of level \<open>k\<close> are empty at every
  point of the search, and every call to \<^verbatim>\<open>NextAssignment\<close>, from the first on,
  returns empty.
\<close>

theorem unconstrained_variable:
  assumes "new_Solver st n cs me = Inr s" and "length me = n"
    and "k < n" and "var_to_constraints s ! k = []"
  shows "(\<forall>p. length p = k \<longrightarrow> level_options s p = [])
    \<and> (\<forall>pc s'. search_point s pc s' \<longrightarrow> options (states s' ! k) = [])
    \<and> (\<exists>s'. NextAssignment s = Some ([], s'))
    \<and> (\<exists>s'. NextAssignments m s = Some (replicate m [], s'))"
proof -
  have 1: "\<forall>p. length p = k \<longrightarrow> level_options s p = []"
    using assms(4) level_options_unconstrained by blast
  have c: "completions s n [] = []"
    using assms(3,4) by (intro completions_unconstrained [of _ k]) simp_all
  have "(if valid s then completions s n [] else []) = []" by (simp add: c)
  then have r: "\<exists>s'. NextAssignments m s = Some (replicate m [], s')" for m
    using constructed_results [OF assms(1,2), of m] by simp
  obtain s' where "NextAssignments (Suc 0) s = Some (replicate (Suc 0) [], s')"
    using r by blast
  then have 2: "NextAssignment s = Some ([], s')"
    by (auto split: option.splits)
  have "k < length (states s)" using new_Solver_frame(7) [OF assms(1)] assms(3) by simp
  then have 3: "\<forall>pc s'. search_point s pc s' \<longrightarrow> options (states s' ! k) = []"
    using search_point_unconstrained [OF _ assms(4) new_Solver_unconstrained [OF assms(1,3,4)]]
    by blast
  show ?thesis using 1 2 3 r by blast
qed

theorem unconstrained_variable_witness:
  "new_Solver s1_facts 2 [(0, 0, 0)] [{}, {}] = Inr free_variable_solver
   \<and> var_to_constraints free_variable_solver ! 1 = []
   \<and> level_options free_variable_solver [1] = []
   \<and> options (states (GetOptions (descend free_variable_solver)) ! 1) = []
   \<and> (\<exists>s'. NextAssignment free_variable_solver = Some ([], s'))"
proof -
  have v: "var_to_constraints free_variable_solver ! 1 = []" by code_simp
  have c: "0 \<le> current_index free_variable_solver"
    "options_it (states free_variable_solver ! nat (current_index free_variable_solver)) \<noteq> []"
    "current_index (descend free_variable_solver) \<noteq> int (n_variables (descend free_variable_solver))"
    by code_simp+
  have p: "search_point free_variable_solver Head (GetOptions (descend free_variable_solver))"
    using search_point.next_level [OF search_point.advance [OF search_point.start c(1,2)] c(3)] .
  show ?thesis
    using unconstrained_variable [OF free_variable_solver_built _ _ v, of 0]
      free_variable_solver_built v p
    by simp
qed


end

